theory Spec2Isabelle
  imports Complex_Main "HOL-Library.Log_Nat"
begin

unbundle bit_operations_syntax

section \<open>The buddy allocator: data model\<close>

text \<open>
  The allocator manages the byte array \<^verbatim>\<open>g_memory[1<<MAX_ORDER]\<close>. Addresses are
  modelled as byte offsets from \<^verbatim>\<open>g_memory\<close> (natural numbers), so the region is the
  set of offsets below \<open>2 ^ MAX_ORDER\<close> and \<^verbatim>\<open>NULL\<close> is a separate value
  (\<open>None\<close>). Pointers to page descriptors \<^verbatim>\<open>&g_pages[k]\<close> are modelled by the index
  \<open>k\<close>; comparing two such pointers is comparing the indices.

  Behaviour that C leaves undefined (and that crashes in practice) is a value of type
  \<open>fault\<close>, returned as \<open>Inl\<close>.
\<close>

datatype fault =
    Bad_log         \<comment> \<open>\<^verbatim>\<open>(int) ceil(log2(size))\<close> for \<open>size \<le> 0\<close>: conversion of -inf or NaN\<close>
  | Bad_shift       \<comment> \<open>\<^verbatim>\<open>1 << o\<close> with a negative \<open>o\<close>\<close>
  | Out_of_bounds   \<comment> \<open>index outside \<^verbatim>\<open>g_pages\<close> or \<^verbatim>\<open>free_area\<close>\<close>
  | Uninit_list     \<comment> \<open>list operation on a list head that \<^verbatim>\<open>INIT_LIST_HEAD\<close> never set up\<close>

definition MIN_ORDER :: nat where
  "MIN_ORDER = 12"

definition MAX_ORDER :: nat where
  "MAX_ORDER = 20"

definition PAGE_SIZE :: nat where
  "PAGE_SIZE = 2 ^ MIN_ORDER"

definition N_PAGES :: nat where
  "N_PAGES = 2 ^ MAX_ORDER div PAGE_SIZE"

text \<open>The three address macros, on offsets from \<^verbatim>\<open>g_memory\<close>.\<close>

definition PAGE_TO_ADDR :: "nat \<Rightarrow> nat" where
  "PAGE_TO_ADDR page_idx = page_idx * PAGE_SIZE"

definition ADDR_TO_PAGE :: "nat \<Rightarrow> nat" where
  "ADDR_TO_PAGE addr = addr div PAGE_SIZE"

definition BUDDY_ADDR :: "nat \<Rightarrow> nat \<Rightarrow> nat" where
  "BUDDY_ADDR addr ord = addr XOR 2 ^ ord"

text \<open>
  \<^verbatim>\<open>page_t\<close>: the embedded \<^verbatim>\<open>list\<close> node is represented by the membership of the
  page's index in a free list of the state below.
\<close>

record page_t =
  blockOrder :: int
  blockAddress :: nat

text \<open>
  The globals. \<open>free_area st i\<close> is the list head \<^verbatim>\<open>free_area[i]\<close>: \<open>None\<close> while
  it has not been initialised, otherwise the page indices linked into it, the one after
  the head first. The arrays' bounds (\<open>MAX_ORDER + 1\<close> list heads, \<open>N_PAGES\<close>
  descriptors) are checked where the code indexes them.
\<close>

record buddy_state =
  free_area :: "nat \<Rightarrow> nat list option"
  g_pages :: "nat \<Rightarrow> page_t"

subsection \<open>The list library\<close>

text \<open>
  Modelled from the spec: the list library \<^verbatim>\<open>list.h\<close> (\<^verbatim>\<open>INIT_LIST_HEAD\<close>,
  \<^verbatim>\<open>list_add\<close>, \<^verbatim>\<open>list_del\<close>, \<^verbatim>\<open>list_empty\<close>, \<^verbatim>\<open>list_entry\<close>,
  \<^verbatim>\<open>list_for_each\<close>) is not among the sources. The spec's contract for it is a
  circular doubly-linked list with initialisation, insertion at the head, removal of a
  given node, an emptiness test, recovery of the owning record from a node, and iteration
  that meets the most recently inserted node first. A list is therefore the sequence of
  its nodes from the head on; the contract covers initialised lists only.
\<close>

definition INIT_LIST_HEAD :: "nat list" where
  "INIT_LIST_HEAD = []"

definition list_add :: "nat \<Rightarrow> nat list \<Rightarrow> nat list" where
  "list_add new xs = new # xs"

definition list_del :: "nat \<Rightarrow> nat list \<Rightarrow> nat list" where
  "list_del entry xs = remove1 entry xs"

definition list_empty :: "nat list \<Rightarrow> bool" where
  "list_empty xs = (xs = [])"

text \<open>\<^verbatim>\<open>list_add(&g_pages[pg].list, &free_area[i])\<close> on the state.\<close>

definition free_area_add :: "nat \<Rightarrow> nat \<Rightarrow> buddy_state \<Rightarrow> fault + buddy_state" where
  "free_area_add pg i st =
     (if MAX_ORDER < i then Inl Out_of_bounds
      else case free_area st i of
             None \<Rightarrow> Inl Uninit_list
           | Some xs \<Rightarrow> Inr (st\<lparr>free_area := (free_area st)(i \<mapsto> list_add pg xs)\<rparr>))"

definition set_blockOrder :: "nat \<Rightarrow> int \<Rightarrow> buddy_state \<Rightarrow> buddy_state" where
  "set_blockOrder pg v st = st\<lparr>g_pages := (g_pages st)(pg := (g_pages st pg)\<lparr>blockOrder := v\<rparr>)\<rparr>"

section \<open>buddy_init\<close>

text \<open>
  The globals as the C runtime zeroes them before \<^verbatim>\<open>main\<close>: no list head has been
  initialised, every descriptor is zero (the null \<^verbatim>\<open>blockAddress\<close> shows as offset 0;
  it is overwritten before it is ever read).
\<close>

definition g_boot :: buddy_state where
  "g_boot = \<lparr>free_area = (\<lambda>i. None), g_pages = (\<lambda>k. \<lparr>blockOrder = 0, blockAddress = 0\<rparr>)\<rparr>"

definition init_pages :: "(nat \<Rightarrow> page_t) \<Rightarrow> nat \<Rightarrow> page_t" where
  "init_pages pgs =
     fold (\<lambda>i g. g(i := \<lparr>blockOrder = - 1, blockAddress = PAGE_TO_ADDR i\<rparr>)) [0..<N_PAGES] pgs"

definition init_freelist :: "(nat \<Rightarrow> nat list option) \<Rightarrow> nat \<Rightarrow> nat list option" where
  "init_freelist fa = fold (\<lambda>i f. f(i \<mapsto> INIT_LIST_HEAD)) [MIN_ORDER..<Suc MAX_ORDER] fa"

definition buddy_init :: "buddy_state \<Rightarrow> fault + buddy_state" where
  "buddy_init st =
     free_area_add 0 MAX_ORDER
       \<lparr>free_area = init_freelist (free_area st), g_pages = init_pages (g_pages st)\<rparr>"

section \<open>buddy_alloc\<close>

text \<open>
  The inner loop \<^verbatim>\<open>for (j = i; j != block_order; j--)\<close>. With \<open>j = 0\<close> and
  \<open>block_order \<noteq> 0\<close> the body shifts by \<open>-1\<close>.
\<close>

function alloc_split :: "buddy_state \<Rightarrow> nat \<Rightarrow> nat \<Rightarrow> nat \<Rightarrow> fault + buddy_state" where
  "alloc_split st left j block_order =
     (if j = block_order then Inr st
      else if j = 0 then Inl Bad_shift
      else
        let right = ADDR_TO_PAGE (BUDDY_ADDR (blockAddress (g_pages st left)) (j - 1)) in
        if N_PAGES \<le> right then Inl Out_of_bounds
        else (case free_area_add right (j - 1) (set_blockOrder right (int (j - 1)) st) of
                Inl e \<Rightarrow> Inl e
              | Inr st' \<Rightarrow> alloc_split st' left (j - 1) block_order))"
  by pat_completeness auto
termination
  by (relation "measure (\<lambda>(st, left, j, block_order). j)") auto

declare alloc_split.simps [simp del]

text \<open>The outer loop \<^verbatim>\<open>for (i = block_order; i <= MAX_ORDER; i++)\<close>.\<close>

function alloc_scan :: "buddy_state \<Rightarrow> nat \<Rightarrow> nat \<Rightarrow> fault + (nat option \<times> buddy_state)" where
  "alloc_scan st block_order i =
     (if i \<le> MAX_ORDER then
        (case free_area st i of
           None \<Rightarrow> Inl Uninit_list
         | Some xs \<Rightarrow>
             if list_empty xs then alloc_scan st block_order (Suc i)
             else
               (let left = hd xs;
                    st1 = set_blockOrder left (int block_order) st;
                    st2 = st1\<lparr>free_area := (free_area st1)(i \<mapsto> list_del left xs)\<rparr>
                in (case alloc_split st2 left i block_order of
                      Inl e \<Rightarrow> Inl e
                    | Inr st3 \<Rightarrow> Inr (Some (blockAddress (g_pages st3 left)), st3))))
      else Inr (None, st))"
  by pat_completeness auto
termination
  by (relation "measure (\<lambda>(st, block_order, i). Suc MAX_ORDER - i)") auto

declare alloc_scan.simps [simp del]

text \<open>
  \<^verbatim>\<open>int block_order = ceil(log2(size))\<close>: for \<open>size \<ge> 1\<close> this is
  \<open>\<lceil>log 2 size\<rceil>\<close>, the library's \<open>ceillog2\<close> (the double computation is exact on
  the range of \<^verbatim>\<open>int\<close>); for \<open>size \<le> 0\<close> the conversion to \<^verbatim>\<open>int\<close> is undefined.
  The result is the returned pointer (\<open>None\<close> for \<^verbatim>\<open>NULL\<close>) and the new state.
\<close>

definition buddy_alloc :: "buddy_state \<Rightarrow> int \<Rightarrow> fault + (nat option \<times> buddy_state)" where
  "buddy_alloc st sz =
     (if sz \<le> 0 then Inl Bad_log
      else
        let block_order = ceillog2 (nat sz) in
        if MAX_ORDER < block_order then Inr (None, st)
        else alloc_scan st block_order block_order)"

section \<open>buddy_free\<close>

text \<open>The last two statements: set the order of the block and link it.\<close>

definition free_insert :: "buddy_state \<Rightarrow> nat \<Rightarrow> nat \<Rightarrow> fault + buddy_state" where
  "free_insert st freePage i = free_area_add freePage i (set_blockOrder freePage (int i) st)"

text \<open>
  The loop \<^verbatim>\<open>while (i < MAX_ORDER && isFree)\<close>. The flag is false after an iteration
  exactly when the scan of \<^verbatim>\<open>free_area[i]\<close> did not meet the buddy, and then the loop
  is left. The buddy's descriptor pointer is only compared during the scan.
\<close>

function free_merge :: "buddy_state \<Rightarrow> nat \<Rightarrow> nat \<Rightarrow> fault + buddy_state" where
  "free_merge st freePage i =
     (if i < MAX_ORDER then
        let buddy = ADDR_TO_PAGE (BUDDY_ADDR (blockAddress (g_pages st freePage)) i) in
        (case free_area st i of
           None \<Rightarrow> Inl Uninit_list
         | Some xs \<Rightarrow>
             if buddy \<in> set xs then
               free_merge (st\<lparr>free_area := (free_area st)(i \<mapsto> list_del buddy xs)\<rparr>)
                 (if freePage > buddy then buddy else freePage) (Suc i)
             else free_insert st freePage i)
      else free_insert st freePage i)"
  by pat_completeness auto
termination
  by (relation "measure (\<lambda>(st, freePage, i). MAX_ORDER - i)") auto

declare free_merge.simps [simp del]

text \<open>
  \<^verbatim>\<open>i = freePage->blockOrder\<close> is an \<^verbatim>\<open>int\<close>; a negative value enters the loop and
  shifts by it.
\<close>

definition buddy_free :: "buddy_state \<Rightarrow> nat \<Rightarrow> fault + buddy_state" where
  "buddy_free st addr =
     (let freePage = ADDR_TO_PAGE addr in
      if N_PAGES \<le> freePage then Inl Out_of_bounds
      else
        let i = blockOrder (g_pages st freePage) in
        if i < 0 then Inl Bad_shift else free_merge st freePage (nat i))"

section \<open>buddy_dump\<close>

text \<open>
  The report is the list of the pairs that \<^verbatim>\<open>printf("%d:%dK ", cnt, (1<<o)/1024)\<close>
  prints, for \<open>o\<close> from \<open>MIN_ORDER\<close> to \<open>MAX_ORDER\<close>.
\<close>

fun dump_orders :: "buddy_state \<Rightarrow> nat list \<Rightarrow> fault + (nat \<times> nat) list" where
  "dump_orders st [] = Inr []"
| "dump_orders st (ord # os) =
     (case free_area st ord of
        None \<Rightarrow> Inl Uninit_list
      | Some xs \<Rightarrow>
          (case dump_orders st os of
             Inl e \<Rightarrow> Inl e
           | Inr out \<Rightarrow> Inr ((length xs, 2 ^ ord div 1024) # out)))"

definition buddy_dump :: "buddy_state \<Rightarrow> fault + (nat \<times> nat) list" where
  "buddy_dump st = dump_orders st [MIN_ORDER..<Suc MAX_ORDER]"

section \<open>States, traces and observations used in the statements\<close>

text \<open>The state that \<^verbatim>\<open>buddy_init()\<close> leaves when it runs on the zeroed globals.\<close>

definition post_init :: buddy_state where
  "post_init =
     \<lparr>free_area = (init_freelist (free_area g_boot))(MAX_ORDER \<mapsto> list_add 0 INIT_LIST_HEAD),
      g_pages = init_pages (g_pages g_boot)\<rparr>"

text \<open>The free lists of the orders \<open>MIN_ORDER\<close> to \<open>MAX_ORDER\<close>, in this order.\<close>

definition free_lists :: "buddy_state \<Rightarrow> nat list option list" where
  "free_lists st = map (free_area st) [MIN_ORDER..<Suc MAX_ORDER]"

text \<open>Sequencing of two calls: a fault of the first is the fault of the sequence.\<close>

definition then_do :: "fault + 'a \<Rightarrow> ('a \<Rightarrow> fault + 'b) \<Rightarrow> fault + 'b" where
  "then_do m f = (case m of Inl e \<Rightarrow> Inl e | Inr x \<Rightarrow> f x)"

text \<open>
  A caller's operations. A trace is run together with the record \<open>live\<close> of the
  blocks the caller holds: the address returned by a successful \<^verbatim>\<open>buddy_alloc\<close>,
  mapped to the order computed from the requested size. A call of \<^verbatim>\<open>buddy_free\<close> is
  valid only on an address that \<open>live\<close> holds; the run of a trace is \<open>None\<close> when
  a call is not valid or faults.
\<close>

datatype op = Alloc int | Free nat

fun exec_op :: "buddy_state \<times> (nat \<rightharpoonup> nat) \<Rightarrow> op \<Rightarrow> (buddy_state \<times> (nat \<rightharpoonup> nat)) option" where
  "exec_op (st, live) (Alloc sz) =
     (case buddy_alloc st sz of
        Inl e \<Rightarrow> None
      | Inr (None, st') \<Rightarrow> Some (st', live)
      | Inr (Some a, st') \<Rightarrow> Some (st', live(a \<mapsto> ceillog2 (nat sz))))"
| "exec_op (st, live) (Free a) =
     (case live a of
        None \<Rightarrow> None
      | Some k \<Rightarrow>
          (case buddy_free st a of
             Inl e \<Rightarrow> None
           | Inr st' \<Rightarrow> Some (st', live(a := None))))"

fun run :: "buddy_state \<times> (nat \<rightharpoonup> nat) \<Rightarrow> op list \<Rightarrow> (buddy_state \<times> (nat \<rightharpoonup> nat)) option" where
  "run s [] = Some s"
| "run s (x # xs) = (case exec_op s x of None \<Rightarrow> None | Some s' \<Rightarrow> run s' xs)"

text \<open>The state and the held blocks after a trace from the state after initialisation.\<close>

definition state_after :: "op list \<Rightarrow> buddy_state" where
  "state_after ops =
     (case run (post_init, Map.empty) ops of None \<Rightarrow> post_init | Some s \<Rightarrow> fst s)"

definition held_after :: "op list \<Rightarrow> (nat \<rightharpoonup> nat)" where
  "held_after ops =
     (case run (post_init, Map.empty) ops of None \<Rightarrow> Map.empty | Some s \<Rightarrow> snd s)"

subsection \<open>Blocks and the partition of the region\<close>

text \<open>
  A block is a pair of its base address and its order; it covers the \<open>2 ^ order\<close>
  bytes from its base on. The free blocks are the ones whose head page is linked into the
  free list of their order; the allocated ones are those of \<open>live\<close>.
\<close>

definition cover :: "nat \<times> nat \<Rightarrow> nat set" where
  "cover b = {fst b ..< fst b + 2 ^ snd b}"

definition wf_block :: "nat \<times> nat \<Rightarrow> bool" where
  "wf_block b =
     (MIN_ORDER \<le> snd b \<and> snd b \<le> MAX_ORDER \<and> 2 ^ snd b dvd fst b \<and>
      fst b + 2 ^ snd b \<le> 2 ^ MAX_ORDER)"

definition free_blocks :: "buddy_state \<Rightarrow> (nat \<times> nat) set" where
  "free_blocks st = {(PAGE_TO_ADDR p, k) | p k xs. free_area st k = Some xs \<and> p \<in> set xs}"

definition live_blocks :: "(nat \<rightharpoonup> nat) \<Rightarrow> (nat \<times> nat) set" where
  "live_blocks live = {(a, k). live a = Some k}"

definition blocks :: "buddy_state \<Rightarrow> (nat \<rightharpoonup> nat) \<Rightarrow> (nat \<times> nat) set" where
  "blocks st live = free_blocks st \<union> live_blocks live"

definition partitioned :: "(nat \<times> nat) set \<Rightarrow> bool" where
  "partitioned B =
     ((\<forall>b\<in>B. wf_block b) \<and>
      (\<forall>b\<in>B. \<forall>c\<in>B. b \<noteq> c \<longrightarrow> cover b \<inter> cover c = {}) \<and>
      (\<Union>b\<in>B. cover b) = {0 ..< 2 ^ MAX_ORDER})"

definition pages_ok :: "buddy_state \<Rightarrow> bool" where
  "pages_ok st = (\<forall>p<N_PAGES. blockAddress (g_pages st p) = PAGE_TO_ADDR p)"

definition lists_ok :: "buddy_state \<Rightarrow> (nat \<rightharpoonup> nat) \<Rightarrow> bool" where
  "lists_ok st live =
     ((\<forall>k. (free_area st k = None) = (k < MIN_ORDER \<or> MAX_ORDER < k)) \<and>
      (\<forall>k xs. free_area st k = Some xs \<longrightarrow>
         distinct xs \<and> (\<forall>p\<in>set xs. p < N_PAGES \<and> live (PAGE_TO_ADDR p) = None)))"

definition orders_ok :: "buddy_state \<Rightarrow> (nat \<rightharpoonup> nat) \<Rightarrow> bool" where
  "orders_ok st live =
     (\<forall>a k. live a = Some k \<longrightarrow> blockOrder (g_pages st (ADDR_TO_PAGE a)) = int k)"

definition buddy_inv :: "buddy_state \<Rightarrow> (nat \<rightharpoonup> nat) \<Rightarrow> bool" where
  "buddy_inv st live = (pages_ok st \<and> lists_ok st live \<and> partitioned (blocks st live))"

text \<open>The three invariants of the data model, as the spec words them.\<close>

definition in_one_free_list :: "buddy_state \<Rightarrow> bool" where
  "in_one_free_list st =
     ((\<forall>i xs. free_area st i = Some xs \<longrightarrow> distinct xs) \<and>
      (\<forall>i j xs ys p. free_area st i = Some xs \<and> free_area st j = Some ys \<and>
          p \<in> set xs \<and> p \<in> set ys \<longrightarrow> i = j))"

definition free_aligned :: "buddy_state \<Rightarrow> bool" where
  "free_aligned st =
     (\<forall>i xs p. free_area st i = Some xs \<and> p \<in> set xs \<longrightarrow>
        2 ^ i dvd blockAddress (g_pages st p))"

definition region_partitioned :: "buddy_state \<Rightarrow> (nat \<rightharpoonup> nat) \<Rightarrow> bool" where
  "region_partitioned st live =
     ((\<forall>b\<in>blocks st live. \<forall>c\<in>blocks st live. b \<noteq> c \<longrightarrow> cover b \<inter> cover c = {}) \<and>
      (\<Union>b\<in>blocks st live. cover b) = {0 ..< 2 ^ MAX_ORDER} \<and>
      (\<forall>p k xs. free_area st k = Some xs \<and> p \<in> set xs \<longrightarrow> live (PAGE_TO_ADDR p) = None))"

subsection \<open>The deallocation algorithm in the spec's words\<close>

text \<open>
  The merge loop on addresses: at order \<open>i\<close> the buddy address is the block's address
  XOR \<open>2 ^ i\<close>; only the free list at order \<open>i\<close> is scanned, for a descriptor with
  that address; a found buddy is removed, the lower address is the merged base and
  \<open>i\<close> advances; otherwise the loop stops. The result is the state, the base and the
  final order.
\<close>

function spec_merge :: "buddy_state \<Rightarrow> nat \<Rightarrow> nat \<Rightarrow> buddy_state \<times> nat \<times> nat" where
  "spec_merge st addr i =
     (if i < MAX_ORDER then
        let buddy_addr = addr XOR 2 ^ i;
            lst = (case free_area st i of None \<Rightarrow> [] | Some xs \<Rightarrow> xs)
        in (case find (\<lambda>d. blockAddress (g_pages st d) = buddy_addr) lst of
              None \<Rightarrow> (st, addr, i)
            | Some d \<Rightarrow>
                spec_merge (st\<lparr>free_area := (free_area st)(i \<mapsto> remove1 d lst)\<rparr>)
                  (min addr buddy_addr) (Suc i))
      else (st, addr, i))"
  by pat_completeness auto
termination
  by (relation "measure (\<lambda>(st, addr, i). MAX_ORDER - i)") auto

declare spec_merge.simps [simp del]

text \<open>
  Then the resulting block's order is set to the final \<open>i\<close> and the block is inserted
  into the free list at order \<open>i\<close>: the one insertion of the operation.
\<close>

definition spec_free :: "buddy_state \<Rightarrow> nat \<Rightarrow> nat \<Rightarrow> buddy_state" where
  "spec_free st addr i0 =
     (case spec_merge st addr i0 of
        (st', base, i) \<Rightarrow>
          let d = ADDR_TO_PAGE base;
              lst = (case free_area st' i of None \<Rightarrow> [] | Some xs \<Rightarrow> xs)
          in st'\<lparr>free_area := (free_area st')(i \<mapsto> d # lst),
                 g_pages := (g_pages st')(d := (g_pages st' d)\<lparr>blockOrder := int i\<rparr>)\<rparr>)"

definition tables_ok :: "buddy_state \<Rightarrow> bool" where
  "tables_ok st =
     (pages_ok st \<and>
      (\<forall>k. MIN_ORDER \<le> k \<and> k \<le> MAX_ORDER \<longrightarrow>
         (\<exists>xs. free_area st k = Some xs \<and> (\<forall>d\<in>set xs. d < N_PAGES))))"

subsection \<open>The two bounded loops with an iteration budget\<close>

text \<open>
  The loops of \<open>alloc_scan\<close> and \<open>free_merge\<close> again, with a budget that every
  execution of the loop body lowers by one; \<open>None\<close> is a loop that wants to run its
  body with no budget left.
\<close>

fun alloc_scan_fuel ::
  "nat \<Rightarrow> buddy_state \<Rightarrow> nat \<Rightarrow> nat \<Rightarrow> (fault + (nat option \<times> buddy_state)) option" where
  "alloc_scan_fuel n st block_order i =
     (if i \<le> MAX_ORDER then
        (case n of
           0 \<Rightarrow> None
         | Suc m \<Rightarrow>
             (case free_area st i of
                None \<Rightarrow> Some (Inl Uninit_list)
              | Some xs \<Rightarrow>
                  if list_empty xs then alloc_scan_fuel m st block_order (Suc i)
                  else
                    (let left = hd xs;
                         st1 = set_blockOrder left (int block_order) st;
                         st2 = st1\<lparr>free_area := (free_area st1)(i \<mapsto> list_del left xs)\<rparr>
                     in (case alloc_split st2 left i block_order of
                           Inl e \<Rightarrow> Some (Inl e)
                         | Inr st3 \<Rightarrow> Some (Inr (Some (blockAddress (g_pages st3 left)), st3))))))
      else Some (Inr (None, st)))"

definition buddy_alloc_fuel ::
  "nat \<Rightarrow> buddy_state \<Rightarrow> int \<Rightarrow> (fault + (nat option \<times> buddy_state)) option" where
  "buddy_alloc_fuel n st sz =
     (if sz \<le> 0 then Some (Inl Bad_log)
      else
        let block_order = ceillog2 (nat sz) in
        if MAX_ORDER < block_order then Some (Inr (None, st))
        else alloc_scan_fuel n st block_order block_order)"

fun free_merge_fuel :: "nat \<Rightarrow> buddy_state \<Rightarrow> nat \<Rightarrow> nat \<Rightarrow> (fault + buddy_state) option" where
  "free_merge_fuel n st freePage i =
     (if i < MAX_ORDER then
        (case n of
           0 \<Rightarrow> None
         | Suc m \<Rightarrow>
             let buddy = ADDR_TO_PAGE (BUDDY_ADDR (blockAddress (g_pages st freePage)) i) in
             (case free_area st i of
                None \<Rightarrow> Some (Inl Uninit_list)
              | Some xs \<Rightarrow>
                  if buddy \<in> set xs then
                    free_merge_fuel m (st\<lparr>free_area := (free_area st)(i \<mapsto> list_del buddy xs)\<rparr>)
                      (if freePage > buddy then buddy else freePage) (Suc i)
                  else Some (free_insert st freePage i)))
      else Some (free_insert st freePage i))"

definition buddy_free_fuel :: "nat \<Rightarrow> buddy_state \<Rightarrow> nat \<Rightarrow> (fault + buddy_state) option" where
  "buddy_free_fuel n st addr =
     (let freePage = ADDR_TO_PAGE addr in
      if N_PAGES \<le> freePage then Some (Inl Out_of_bounds)
      else
        let i = blockOrder (g_pages st freePage) in
        if i < 0 then Some (Inl Bad_shift) else free_merge_fuel n st freePage (nat i))"

declare alloc_scan_fuel.simps [simp del]
declare free_merge_fuel.simps [simp del]

declare alloc_scan_fuel.simps [simp del]
declare free_merge_fuel.simps [simp del]

section \<open>Evaluation\<close>

lemmas cdefs =
  MIN_ORDER_def MAX_ORDER_def PAGE_SIZE_def N_PAGES_def PAGE_TO_ADDR_def ADDR_TO_PAGE_def
  BUDDY_ADDR_def

lemma init_pages_apply:
  "init_pages g p =
     (if p < N_PAGES then \<lparr>blockOrder = - 1, blockAddress = PAGE_TO_ADDR p\<rparr> else g p)"
proof -
  have "fold (\<lambda>i g. g(i := \<lparr>blockOrder = - 1, blockAddress = PAGE_TO_ADDR i\<rparr>)) xs g p =
        (if p \<in> set xs then \<lparr>blockOrder = - 1, blockAddress = PAGE_TO_ADDR p\<rparr> else g p)" for xs
    by (induction xs arbitrary: g) auto
  then show ?thesis
    by (simp add: init_pages_def)
qed

lemma init_freelist_apply:
  "init_freelist f i = (if MIN_ORDER \<le> i \<and> i \<le> MAX_ORDER then Some [] else f i)"
proof -
  have "fold (\<lambda>i f. f(i \<mapsto> INIT_LIST_HEAD)) xs f i = (if i \<in> set xs then Some [] else f i)" for xs
    by (induction xs arbitrary: f) (auto simp: INIT_LIST_HEAD_def)
  then show ?thesis
    by (auto simp add: init_freelist_def)
qed

lemma buddy_init_boot: "buddy_init g_boot = Inr post_init"
  by (simp add: buddy_init_def g_boot_def free_area_add_def init_freelist_apply post_init_def
      list_add_def INIT_LIST_HEAD_def MIN_ORDER_def MAX_ORDER_def)

lemma orders_upt: "[MIN_ORDER..<Suc MAX_ORDER] = [12, 13, 14, 15, 16, 17, 18, 19, 20]"
  by (simp add: upt_rec MIN_ORDER_def MAX_ORDER_def)

lemma ceillog2_values:
  "ceillog2 4096 = 12" "ceillog2 262144 = 18" "ceillog2 524288 = 19"
  by (simp_all add: ceillog2_rec)

lemmas eval_ops =
  buddy_alloc_def alloc_scan.simps alloc_split.simps post_init_def
  init_freelist_apply init_pages_apply cdefs list_empty_def list_del_def list_add_def
  INIT_LIST_HEAD_def set_blockOrder_def free_area_add_def Let_def g_boot_def buddy_free_def
  free_merge.simps free_insert_def buddy_dump_def free_lists_def orders_upt

lemmas eval_defs = eval_ops ceillog2_rec

text \<open>
  C3. Immediately after \<^verbatim>\<open>buddy_init()\<close> the free lists hold exactly one block, at
  \<open>MAX_ORDER\<close>: page 0, the region base. Every list from \<open>MIN_ORDER\<close> to
  \<open>MAX_ORDER - 1\<close> is empty, and \<^verbatim>\<open>buddy_dump()\<close> prints these counts.
\<close>

theorem init_one_block_at_max_order:
  "buddy_init g_boot = Inr post_init \<and>
   free_lists post_init =
     [Some [], Some [], Some [], Some [], Some [], Some [], Some [], Some [], Some [0]] \<and>
   blockAddress (g_pages post_init 0) = 0 \<and>
   buddy_dump post_init =
     Inr [(0, 4), (0, 8), (0, 16), (0, 32), (0, 64), (0, 128), (0, 256), (0, 512), (1, 1024)]"
  by (simp add: buddy_init_boot) (simp add: eval_defs)

text \<open>
  C1. The order computed from the size has no lower clamp: for a request of one byte it
  is 0, the scan starts at \<^verbatim>\<open>free_area[0]\<close>, which \<^verbatim>\<open>buddy_init\<close> never
  initialises, and the call faults where a request of one page is served at offset 0.
\<close>

theorem alloc_one_byte_faults:
  "ceillog2 (nat 1) = 0 \<and> free_area post_init 0 = None \<and>
   buddy_alloc post_init 1 = Inl Uninit_list \<and>
   (\<exists>st. buddy_alloc post_init (int PAGE_SIZE) = Inr (Some 0, st))"
  by (simp add: eval_defs)

text \<open>
  C4. From the state after initialisation, one allocation of \<open>2 ^ MIN_ORDER\<close> bytes
  succeeds with the region base, leaves one free block at each order from \<open>MIN_ORDER\<close>
  to \<open>MAX_ORDER - 1\<close> and none at \<open>MAX_ORDER\<close>; the block left at order \<open>j - 1\<close>
  is the upper half, at base + \<open>2 ^ (j - 1)\<close>, the lower half stays the candidate.
\<close>

theorem alloc_min_block_split_cascade:
  "\<exists>st. buddy_alloc post_init (int PAGE_SIZE) = Inr (Some 0, st) \<and>
        free_lists st =
          [Some [1], Some [2], Some [4], Some [8], Some [16], Some [32], Some [64],
           Some [128], Some []] \<and>
        map (map_option (map (\<lambda>p. blockAddress (g_pages st p))) \<circ> free_area st)
            [MIN_ORDER..<MAX_ORDER] =
          [Some [0 + 2 ^ 12], Some [0 + 2 ^ 13], Some [0 + 2 ^ 14], Some [0 + 2 ^ 15],
           Some [0 + 2 ^ 16], Some [0 + 2 ^ 17], Some [0 + 2 ^ 18], Some [0 + 2 ^ 19]] \<and>
        buddy_dump st =
          Inr [(1, 4), (1, 8), (1, 16), (1, 32), (1, 64), (1, 128), (1, 256), (1, 512),
               (0, 1024)]"
  by (simp add: eval_defs upt_rec)

text \<open>
  C5. From the state after initialisation, allocating one block of the minimum size and
  freeing the returned address brings the free lists back to one block at
  \<open>MAX_ORDER\<close> and none elsewhere.
\<close>

theorem alloc_free_round_trip:
  "\<exists>a st1 st2.
     buddy_alloc post_init (int PAGE_SIZE) = Inr (Some a, st1) \<and>
     buddy_free st1 a = Inr st2 \<and>
     free_lists st2 =
       [Some [], Some [], Some [], Some [], Some [], Some [], Some [], Some [], Some [0]] \<and>
     free_lists st2 = free_lists post_init"
  by (simp add: eval_defs)

text \<open>
  C6, as stated, fails: after two allocations of \<open>2 ^ 18\<close> bytes the two blocks are
  siblings of order 18, both allocated; freeing both leaves no free block at the next
  order 19, because the merged block merges again with its own free buddy.
\<close>

theorem siblings_merge_cascades:
  "run (post_init, Map.empty) [Alloc (2 ^ 18), Alloc (2 ^ 18)] =
     Some (state_after [Alloc (2 ^ 18), Alloc (2 ^ 18)], [0 \<mapsto> 18, 2 ^ 18 \<mapsto> 18]) \<and>
   BUDDY_ADDR 0 18 = 2 ^ 18 \<and>
   run (post_init, Map.empty) [Alloc (2 ^ 18), Alloc (2 ^ 18), Free 0, Free (2 ^ 18)] \<noteq> None \<and>
   free_lists (state_after [Alloc (2 ^ 18), Alloc (2 ^ 18), Free 0, Free (2 ^ 18)]) =
     [Some [], Some [], Some [], Some [], Some [], Some [], Some [], Some [], Some [0]] \<and>
   run (post_init, Map.empty) [Alloc (2 ^ 18), Alloc (2 ^ 18), Free (2 ^ 18), Free 0] \<noteq> None \<and>
   free_lists (state_after [Alloc (2 ^ 18), Alloc (2 ^ 18), Free (2 ^ 18), Free 0]) =
     [Some [], Some [], Some [], Some [], Some [], Some [], Some [], Some [], Some [0]]"
  by (simp add: state_after_def eval_ops ceillog2_values)

section \<open>Failure of buddy_alloc\<close>

lemma alloc_scan_null_iff:
  "(alloc_scan st bo i = Inr (None, st')) =
     (st' = st \<and> (\<forall>k. i \<le> k \<and> k \<le> MAX_ORDER \<longrightarrow> free_area st k = Some []))"
proof (induction st bo i rule: alloc_scan.induct)
  case (1 st bo i)
  show ?case
  proof (cases "i \<le> MAX_ORDER")
    case False
    then show ?thesis
      by (subst alloc_scan.simps) auto
  next
    case True
    show ?thesis
    proof (cases "free_area st i")
      case None
      with True show ?thesis
        by (subst alloc_scan.simps) auto
    next
      case (Some xs)
      show ?thesis
      proof (cases "xs = []")
        case True
        have "(\<forall>k. i \<le> k \<and> k \<le> MAX_ORDER \<longrightarrow> free_area st k = Some []) =
              (\<forall>k. Suc i \<le> k \<and> k \<le> MAX_ORDER \<longrightarrow> free_area st k = Some [])"
        proof (intro iffI allI impI)
          fix k
          assume "\<forall>k. Suc i \<le> k \<and> k \<le> MAX_ORDER \<longrightarrow> free_area st k = Some []"
            and "i \<le> k \<and> k \<le> MAX_ORDER"
          then show "free_area st k = Some []"
            using Some True by (cases "k = i") auto
        qed auto
        with "1.IH" [OF \<open>i \<le> MAX_ORDER\<close> Some] True Some \<open>i \<le> MAX_ORDER\<close> show ?thesis
          by (subst alloc_scan.simps) (simp add: list_empty_def)
      next
        case False
        with Some True show ?thesis
          by (subst alloc_scan.simps) (auto simp: list_empty_def Let_def split: sum.splits)
      qed
    qed
  qed
qed



text \<open>
  The \<^verbatim>\<open>NULL\<close> return, for a size of at least 1 and \<open>r\<close> the least order with
  \<open>2 ^ r \<ge> size\<close>: it happens exactly when \<open>r\<close> exceeds \<open>MAX_ORDER\<close> or every
  list head from order \<open>r\<close> to \<open>MAX_ORDER\<close> is an initialised, empty list. The heads
  below \<open>MIN_ORDER\<close> are never initialised, so for sizes of at most half a page the
  second case never arises.
\<close>

lemma alloc_null_iff_initialised:
  "1 \<le> sz \<Longrightarrow>
     ((\<exists>st'. buddy_alloc st sz = Inr (None, st')) =
        (MAX_ORDER < ceillog2 (nat sz) \<or>
         (\<forall>k. ceillog2 (nat sz) \<le> k \<and> k \<le> MAX_ORDER \<longrightarrow> free_area st k = Some []))) \<and>
     nat sz \<le> 2 ^ ceillog2 (nat sz) \<and>
     (\<forall>r. nat sz \<le> 2 ^ r \<longrightarrow> ceillog2 (nat sz) \<le> r) \<and>
     (2 ^ MAX_ORDER < sz \<longrightarrow> buddy_alloc st sz = Inr (None, st))"
proof (intro conjI allI impI)
  assume sz: "1 \<le> sz"
  show "(\<exists>st'. buddy_alloc st sz = Inr (None, st')) =
        (MAX_ORDER < ceillog2 (nat sz) \<or>
         (\<forall>k. ceillog2 (nat sz) \<le> k \<and> k \<le> MAX_ORDER \<longrightarrow> free_area st k = Some []))"
    using sz by (auto simp: buddy_alloc_def Let_def alloc_scan_null_iff)
  show "nat sz \<le> 2 ^ ceillog2 (nat sz)"
    by (rule le_two_power_ceillog2)
  show "ceillog2 (nat sz) \<le> r" if "nat sz \<le> 2 ^ r" for r
    using that sz by (simp add: ceillog2_le_iff)
  show "buddy_alloc st sz = Inr (None, st)" if "2 ^ MAX_ORDER < sz"
  proof -
    have "\<not> nat sz \<le> 2 ^ MAX_ORDER"
      using that by (simp add: nat_le_iff)
    moreover have "0 < nat sz"
      using sz by simp
    ultimately have "MAX_ORDER < ceillog2 (nat sz)"
      using ceillog2_le_iff [of "nat sz" MAX_ORDER] by linarith
    then show ?thesis
      using sz by (simp add: buddy_alloc_def)
  qed
qed



text \<open>
  C2. The failure return is not equivalent to the absence of a free block from the
  computed order up. After \<^verbatim>\<open>buddy_alloc(1 << 20)\<close> has taken the whole region, no list
  from order 0 to \<open>MAX_ORDER\<close> holds a block: the heads 12 to 20 are empty lists, the
  heads 0 to 11 were never initialised. A request of one page then returns \<^verbatim>\<open>NULL\<close>,
  but a request of one byte, whose order is 0, does not: its scan starts at
  \<^verbatim>\<open>free_area[0]\<close> and faults there.
\<close>

theorem alloc_one_byte_exhausted_faults:
  "\<exists>st. buddy_alloc post_init (2 ^ 20) = Inr (Some 0, st) \<and>
     map (free_area st) [0..<Suc MAX_ORDER] =
       [None, None, None, None, None, None, None, None, None, None, None, None,
        Some [], Some [], Some [], Some [], Some [], Some [], Some [], Some [], Some []] \<and>
     ceillog2 (nat 1) = 0 \<and>
     buddy_alloc st 1 = Inl Uninit_list \<and>
     buddy_alloc st (int PAGE_SIZE) = Inr (None, st)"
  by (simp add: eval_defs upt_rec)

section \<open>Addresses, pages and buddies\<close>

lemma PAGE_SIZE_pos: "0 < PAGE_SIZE"
  by (simp add: PAGE_SIZE_def)

lemma ADDR_TO_PAGE_PAGE_TO_ADDR: "ADDR_TO_PAGE (PAGE_TO_ADDR p) = p"
  by (simp add: ADDR_TO_PAGE_def PAGE_TO_ADDR_def PAGE_SIZE_def)

lemma PAGE_TO_ADDR_inj: "(PAGE_TO_ADDR p = PAGE_TO_ADDR q) = (p = q)"
  by (simp add: PAGE_TO_ADDR_def PAGE_SIZE_def)

lemma PAGE_TO_ADDR_ADDR_TO_PAGE: "PAGE_SIZE dvd a \<Longrightarrow> PAGE_TO_ADDR (ADDR_TO_PAGE a) = a"
  by (simp add: ADDR_TO_PAGE_def PAGE_TO_ADDR_def)

lemma PAGE_SIZE_dvd: "2 ^ k dvd a \<Longrightarrow> MIN_ORDER \<le> k \<Longrightarrow> PAGE_SIZE dvd (a::nat)"
  unfolding PAGE_SIZE_def by (meson dvd_trans le_imp_power_dvd)

lemma ADDR_TO_PAGE_less: "a < 2 ^ MAX_ORDER \<Longrightarrow> ADDR_TO_PAGE a < N_PAGES"
  by (simp add: ADDR_TO_PAGE_def N_PAGES_def PAGE_SIZE_def MIN_ORDER_def MAX_ORDER_def)

lemma PAGE_TO_ADDR_less: "p < N_PAGES \<Longrightarrow> PAGE_TO_ADDR p < 2 ^ MAX_ORDER"
  by (simp add: PAGE_TO_ADDR_def N_PAGES_def PAGE_SIZE_def MIN_ORDER_def MAX_ORDER_def)

lemma xor_pow_add:
  fixes a :: nat
  assumes "2 ^ Suc j dvd a"
  shows "a XOR 2 ^ j = a + 2 ^ j"
proof -
  from assms obtain c where "a = 2 ^ Suc j * c" ..
  then have "a = push_bit (Suc j) c"
    by (simp add: push_bit_eq_mult)
  moreover have "\<not> bit (push_bit (Suc j) c) j"
    unfolding bit_push_bit_iff by simp
  ultimately have "\<not> bit a j"
    by blast
  then have "a AND 2 ^ j = 0"
    by (simp add: and_exp_eq_0_iff_not_bit)
  then show ?thesis
    by (simp add: disjunctive_add_eq_xor)
qed

lemma xor_pow_cancel: "(a XOR 2 ^ j) XOR 2 ^ j = (a::nat)"
  by (simp add: xor.assoc)

lemma xor_pow_sub:
  fixes a :: nat
  assumes "2 ^ j dvd a" "\<not> 2 ^ Suc j dvd a"
  shows "a XOR 2 ^ j = a - 2 ^ j \<and> 2 ^ j \<le> a \<and> 2 ^ Suc j dvd (a - 2 ^ j)"
proof -
  from assms(1) obtain c where a: "a = 2 ^ j * c" ..
  with assms(2) have "odd c"
    by auto
  then obtain d where c: "c = 2 * d + 1"
    by (auto elim: oddE)
  have le: "2 ^ j \<le> a" and sub: "a - 2 ^ j = 2 ^ Suc j * d"
    by (simp_all add: a c algebra_simps)
  have "(a - 2 ^ j) XOR 2 ^ j = (a - 2 ^ j) + 2 ^ j"
    by (rule xor_pow_add) (simp add: sub)
  also have "\<dots> = a"
    using le by simp
  finally have "a XOR 2 ^ j = ((a - 2 ^ j) XOR 2 ^ j) XOR 2 ^ j"
    by simp
  then have "a XOR 2 ^ j = a - 2 ^ j"
    by (simp only: xor_pow_cancel)
  with le sub show ?thesis
    by simp
qed

lemma xor_pow_page:
  assumes "PAGE_SIZE dvd a" "MIN_ORDER \<le> j"
  shows "PAGE_SIZE dvd (a XOR 2 ^ j)"
proof -
  from assms(1) obtain c where "a = PAGE_SIZE * c" ..
  then have a: "a = push_bit MIN_ORDER c"
    by (simp add: push_bit_eq_mult PAGE_SIZE_def)
  have "(2::nat) ^ j = push_bit MIN_ORDER (2 ^ (j - MIN_ORDER))"
    using assms(2) by (simp add: push_bit_eq_mult flip: power_add)
  then have "a XOR 2 ^ j = push_bit MIN_ORDER (c XOR 2 ^ (j - MIN_ORDER))"
    by (simp add: a)
  then show ?thesis
    by (simp add: push_bit_eq_mult PAGE_SIZE_def)
qed

lemma xor_pow_less:
  fixes a :: nat
  assumes "a < 2 ^ n" "j < n"
  shows "a XOR 2 ^ j < 2 ^ n"
proof -
  have "take_bit n (a XOR 2 ^ j) = take_bit n a XOR take_bit n (2 ^ j)"
    by simp
  also have "\<dots> = a XOR 2 ^ j"
    using assms by (simp add: take_bit_nat_eq_self)
  finally show ?thesis
    by (simp only: take_bit_nat_eq_self_iff)
qed

section \<open>Blocks\<close>

lemma wf_block_split:
  assumes "wf_block (a, Suc j)" "MIN_ORDER \<le> j"
  shows "wf_block (a, j)" "wf_block (a + 2 ^ j, j)"
    "cover (a, Suc j) = cover (a, j) \<union> cover (a + 2 ^ j, j)"
    "cover (a, j) \<inter> cover (a + 2 ^ j, j) = {}"
proof -
  from assms have d: "2 ^ Suc j dvd a" and le: "a + 2 ^ Suc j \<le> 2 ^ MAX_ORDER" and j: "Suc j \<le> MAX_ORDER"
    by (simp_all add: wf_block_def)
  from d have dj: "2 ^ j dvd a"
    by (metis dvd_trans le_imp_power_dvd le_SucI le_refl)
  show "wf_block (a, j)"
    using assms(2) j dj le by (simp add: wf_block_def)
  show "wf_block (a + 2 ^ j, j)"
    using assms(2) j dj le by (simp add: wf_block_def)
  show "cover (a, Suc j) = cover (a, j) \<union> cover (a + 2 ^ j, j)"
    by (auto simp: cover_def)
  show "cover (a, j) \<inter> cover (a + 2 ^ j, j) = {}"
    by (auto simp: cover_def)
qed

lemma wf_block_merge:
  assumes "wf_block (a, i)" "wf_block (b, i)" "b = a XOR 2 ^ i" "i < MAX_ORDER"
  shows "wf_block (min a b, Suc i)" "cover (min a b, Suc i) = cover (a, i) \<union> cover (b, i)"
proof -
  from assms have da: "2 ^ i dvd a" and la: "a + 2 ^ i \<le> 2 ^ MAX_ORDER" and lb: "b + 2 ^ i \<le> 2 ^ MAX_ORDER"
    and i: "MIN_ORDER \<le> i"
    by (simp_all add: wf_block_def)
  have "min a b + 2 ^ i = max a b \<and> 2 ^ Suc i dvd min a b"
  proof (cases "2 ^ Suc i dvd a")
    case True
    then have "b = a + 2 ^ i"
      using assms(3) by (simp add: xor_pow_add)
    with True show ?thesis
      by (simp add: min_def max_def)
  next
    case False
    from xor_pow_sub [OF da False] assms(3)
    have "b = a - 2 ^ i" "2 ^ i \<le> a" "2 ^ Suc i dvd b"
      by simp_all
    moreover have "(0::nat) < 2 ^ i"
      by simp
    ultimately have "b < a" "b + 2 ^ i = a"
      by linarith+
    with \<open>2 ^ Suc i dvd b\<close> show ?thesis
      by (simp add: min_def max_def)
  qed
  then have m: "min a b + 2 ^ i = max a b" and d: "2 ^ Suc i dvd min a b"
    by simp_all
  have "max a b + 2 ^ i \<le> 2 ^ MAX_ORDER"
    using la lb by (simp add: max_def)
  with m have "min a b + 2 ^ Suc i \<le> 2 ^ MAX_ORDER"
    by simp
  with d i assms(4) show "wf_block (min a b, Suc i)"
    by (simp add: wf_block_def)
  show "cover (min a b, Suc i) = cover (a, i) \<union> cover (b, i)"
    using m by (auto simp: cover_def min_def max_def split: if_splits)
qed

lemma partitioned_replace:
  assumes B: "partitioned B" and sub: "C \<subseteq> B"
    and wf: "\<forall>c\<in>C'. wf_block c"
    and dj: "\<forall>b\<in>C'. \<forall>c\<in>C'. b \<noteq> c \<longrightarrow> cover b \<inter> cover c = {}"
    and cv: "(\<Union>c\<in>C'. cover c) = (\<Union>c\<in>C. cover c)"
  shows "partitioned ((B - C) \<union> C')"
proof -
  from B have wfB: "\<And>b. b \<in> B \<Longrightarrow> wf_block b"
    and djB: "\<And>b c. b \<in> B \<Longrightarrow> c \<in> B \<Longrightarrow> b \<noteq> c \<Longrightarrow> cover b \<inter> cover c = {}"
    and cvB: "(\<Union>b\<in>B. cover b) = {0..<2 ^ MAX_ORDER}"
    by (simp_all add: partitioned_def)
  have out: "cover x \<inter> cover y = {}" if x: "x \<in> B" "x \<notin> C" and y: "y \<in> C'" for x y
  proof -
    have "cover y \<subseteq> (\<Union>c\<in>C. cover c)"
      using y cv by blast
    moreover have "cover x \<inter> cover z = {}" if "z \<in> C" for z
    proof (rule djB)
      show "x \<in> B" by (rule x)
      show "z \<in> B" using that sub by blast
      show "x \<noteq> z" using that x by blast
    qed
    ultimately show ?thesis
      by blast
  qed
  have 1: "wf_block b" if "b \<in> B - C \<union> C'" for b
    using that wfB wf by blast
  have 2: "cover b \<inter> cover c = {}"
    if b: "b \<in> B - C \<union> C'" and c: "c \<in> B - C \<union> C'" and ne: "b \<noteq> c" for b c
  proof (cases "b \<in> C'")
    case bC: True
    show ?thesis
    proof (cases "c \<in> C'")
      case True
      with bC ne dj show ?thesis by blast
    next
      case False
      with c have "c \<in> B" "c \<notin> C" by blast+
      from out [OF this bC] show ?thesis by blast
    qed
  next
    case bC: False
    with b have bB: "b \<in> B" "b \<notin> C" by blast+
    show ?thesis
    proof (cases "c \<in> C'")
      case True
      from out [OF bB True] show ?thesis .
    next
      case False
      with c have "c \<in> B" by blast
      with bB ne show ?thesis by (intro djB)
    qed
  qed
  have "(\<Union>b\<in>B - C \<union> C'. cover b) = (\<Union>b\<in>B - C. cover b) \<union> (\<Union>c\<in>C. cover c)"
    using cv by blast
  also have "\<dots> = (\<Union>b\<in>B. cover b)"
    using sub by blast
  finally have 3: "(\<Union>b\<in>B - C \<union> C'. cover b) = {0..<2 ^ MAX_ORDER}"
    using cvB by simp
  from 1 2 3 show ?thesis
    unfolding partitioned_def by blast
qed

section \<open>The invariant\<close>

lemma base_in_cover: "a \<in> cover (a, k)"
  by (simp add: cover_def)

lemma live_in_blocks: "M a = Some k \<Longrightarrow> (a, k) \<in> blocks st M"
  by (simp add: blocks_def live_blocks_def)

lemma free_in_blocks: "free_area st k = Some xs \<Longrightarrow> p \<in> set xs \<Longrightarrow> (PAGE_TO_ADDR p, k) \<in> blocks st M"
  by (auto simp: blocks_def free_blocks_def)

lemma inv_wf: "buddy_inv st M \<Longrightarrow> b \<in> blocks st M \<Longrightarrow> wf_block b"
  by (simp add: buddy_inv_def partitioned_def)

lemma inv_same_block:
  "buddy_inv st M \<Longrightarrow> b \<in> blocks st M \<Longrightarrow> c \<in> blocks st M \<Longrightarrow> x \<in> cover b \<Longrightarrow> x \<in> cover c \<Longrightarrow> b = c"
  unfolding buddy_inv_def partitioned_def by blast

lemma inv_pages: "buddy_inv st M \<Longrightarrow> p < N_PAGES \<Longrightarrow> blockAddress (g_pages st p) = PAGE_TO_ADDR p"
  by (simp add: buddy_inv_def pages_ok_def)

lemma inv_list: "buddy_inv st M \<Longrightarrow> MIN_ORDER \<le> k \<Longrightarrow> k \<le> MAX_ORDER \<Longrightarrow> \<exists>xs. free_area st k = Some xs"
  unfolding buddy_inv_def lists_ok_def by (metis not_less option.exhaust)

lemma inv_distinct: "buddy_inv st M \<Longrightarrow> free_area st k = Some xs \<Longrightarrow> distinct xs"
  unfolding buddy_inv_def lists_ok_def by blast

lemma inv_free_not_live: "buddy_inv st M \<Longrightarrow> free_area st k = Some xs \<Longrightarrow> p \<in> set xs \<Longrightarrow> M (PAGE_TO_ADDR p) = None"
  unfolding buddy_inv_def lists_ok_def by blast

lemma inv_free_page: "buddy_inv st M \<Longrightarrow> free_area st k = Some xs \<Longrightarrow> p \<in> set xs \<Longrightarrow> p < N_PAGES"
  unfolding buddy_inv_def lists_ok_def by blast

lemma wf_block_page:
  assumes "wf_block (a, k)"
  shows "PAGE_SIZE dvd a" "a < 2 ^ MAX_ORDER" "ADDR_TO_PAGE a < N_PAGES" "PAGE_TO_ADDR (ADDR_TO_PAGE a) = a"
proof -
  from assms have k: "MIN_ORDER \<le> k" and d: "2 ^ k dvd a" and le: "a + 2 ^ k \<le> 2 ^ MAX_ORDER"
    by (simp_all add: wf_block_def)
  show 1: "PAGE_SIZE dvd a"
    using d k by (rule PAGE_SIZE_dvd)
  have "(0::nat) < 2 ^ k"
    by simp
  with le show 2: "a < 2 ^ MAX_ORDER"
    by linarith
  from 2 show "ADDR_TO_PAGE a < N_PAGES"
    by (rule ADDR_TO_PAGE_less)
  from 1 show "PAGE_TO_ADDR (ADDR_TO_PAGE a) = a"
    by (rule PAGE_TO_ADDR_ADDR_TO_PAGE)
qed

subsection \<open>The blocks after an update\<close>

lemma blocks_set_blockOrder [simp]: "blocks (set_blockOrder p v st) M = blocks st M"
  by (simp add: blocks_def free_blocks_def set_blockOrder_def)

lemma free_blocks_iff:
  "(b \<in> free_blocks st) = (\<exists>p xs. fst b = PAGE_TO_ADDR p \<and> free_area st (snd b) = Some xs \<and> p \<in> set xs)"
  by (cases b) (auto simp: free_blocks_def)

lemma free_blocks_cons:
  assumes "free_area st k = Some ys"
  shows "free_blocks (st\<lparr>free_area := (free_area st)(k \<mapsto> p # ys)\<rparr>) = insert (PAGE_TO_ADDR p, k) (free_blocks st)"
proof (rule set_eqI)
  fix b :: "nat \<times> nat"
  obtain x j where b: "b = (x, j)"
    by (cases b)
  show "(b \<in> free_blocks (st\<lparr>free_area := (free_area st)(k \<mapsto> p # ys)\<rparr>)) = (b \<in> insert (PAGE_TO_ADDR p, k) (free_blocks st))"
  proof (cases "j = k")
    case True
    with assms show ?thesis
      by (auto simp: b free_blocks_iff)
  next
    case False
    then show ?thesis
      by (auto simp: b free_blocks_iff)
  qed
qed

lemma free_blocks_remove1:
  assumes "free_area st k = Some ys" "distinct ys" "p \<in> set ys"
  shows "free_blocks (st\<lparr>free_area := (free_area st)(k \<mapsto> remove1 p ys)\<rparr>) = free_blocks st - {(PAGE_TO_ADDR p, k)}"
proof (rule set_eqI)
  fix b :: "nat \<times> nat"
  obtain x j where b: "b = (x, j)"
    by (cases b)
  show "(b \<in> free_blocks (st\<lparr>free_area := (free_area st)(k \<mapsto> remove1 p ys)\<rparr>)) = (b \<in> free_blocks st - {(PAGE_TO_ADDR p, k)})"
  proof (cases "j = k")
    case True
    with assms show ?thesis
      by (auto simp: b free_blocks_iff PAGE_TO_ADDR_inj)
  next
    case False
    then show ?thesis
      by (auto simp: b free_blocks_iff)
  qed
qed

lemma live_blocks_upd: "live_blocks (M(a \<mapsto> k)) = insert (a, k) (live_blocks M - {a} \<times> UNIV)"
  by (auto simp: live_blocks_def split: if_splits)

lemma live_blocks_del: "live_blocks (M(a := None)) = live_blocks M - {a} \<times> UNIV"
  by (auto simp: live_blocks_def split: if_splits)

lemma live_blocks_at: "M a = Some k \<Longrightarrow> live_blocks M \<inter> {a} \<times> UNIV = {(a, k)}"
  by (auto simp: live_blocks_def)

lemma live_blocks_none: "M a = None \<Longrightarrow> live_blocks M \<inter> {a} \<times> UNIV = {}"
  by (auto simp: live_blocks_def)

lemma free_blocks_not_live:
  "buddy_inv st M \<Longrightarrow> M a \<noteq> None \<Longrightarrow> (a, k) \<notin> free_blocks st"
  unfolding free_blocks_def using inv_free_not_live by fastforce

lemma free_area_set_blockOrder [simp]: "free_area (set_blockOrder p v st) = free_area st"
  by (simp add: set_blockOrder_def)

lemma blockAddress_set_blockOrder [simp]:
  "blockAddress (g_pages (set_blockOrder p v st) q) = blockAddress (g_pages st q)"
  by (simp add: set_blockOrder_def)

lemma g_pages_set_blockOrder_other: "q \<noteq> p \<Longrightarrow> g_pages (set_blockOrder p v st) q = g_pages st q"
  by (simp add: set_blockOrder_def)

lemma blockOrder_set_blockOrder_same [simp]: "blockOrder (g_pages (set_blockOrder p v st) p) = v"
  by (simp add: set_blockOrder_def)

lemma free_blocks_set_blockOrder [simp]: "free_blocks (set_blockOrder p v st) = free_blocks st"
  by (simp add: free_blocks_def)

lemma pages_ok_set_blockOrder [simp]: "pages_ok (set_blockOrder p v st) = pages_ok st"
  by (simp add: pages_ok_def)

lemma pages_ok_free_area_update [simp]: "pages_ok (st\<lparr>free_area := f\<rparr>) = pages_ok st"
  by (simp add: pages_ok_def)

text \<open>No block other than the one that covers an address may start inside it.\<close>

lemma no_block_inside:
  assumes inv: "buddy_inv st M" and blk: "(a, k) \<in> blocks st M" and r: "r \<in> cover (a, k)" "r \<noteq> a"
  shows "M r = None" and "free_area st i = Some xs \<Longrightarrow> PAGE_TO_ADDR p = r \<Longrightarrow> p \<notin> set xs"
proof -
  have none: "(r, i) \<notin> blocks st M" for i
  proof
    assume "(r, i) \<in> blocks st M"
    from inv_same_block [OF inv this blk base_in_cover r(1)] r(2) show False
      by simp
  qed
  show "M r = None"
  proof (rule ccontr)
    assume "M r \<noteq> None"
    then obtain i where "M r = Some i"
      by auto
    then have "(r, i) \<in> blocks st M"
      by (rule live_in_blocks)
    with none show False
      by simp
  qed
  show "p \<notin> set xs" if "free_area st i = Some xs" "PAGE_TO_ADDR p = r"
  proof
    assume "p \<in> set xs"
    with that(1) have "(PAGE_TO_ADDR p, i) \<in> blocks st M"
      by (rule free_in_blocks)
    with none that(2) show False
      by simp
  qed
qed

text \<open>Linking a page that heads no block yet into a free list, while the map of the other blocks changes at one address.\<close>

lemma lists_ok_cons:
  assumes ok: "lists_ok st M" and ys: "free_area st j = Some ys"
    and p: "p < N_PAGES" "M' (PAGE_TO_ADDR p) = None" "\<And>i xs. free_area st i = Some xs \<Longrightarrow> p \<notin> set xs"
    and M': "\<And>x. M x = None \<Longrightarrow> x \<noteq> a \<Longrightarrow> M' x = None"
    and a: "\<And>i xs q. free_area st i = Some xs \<Longrightarrow> q \<in> set xs \<Longrightarrow> PAGE_TO_ADDR q \<noteq> a"
  shows "lists_ok (st\<lparr>free_area := (free_area st)(j \<mapsto> p # ys)\<rparr>) M'"
proof -
  let ?st = "st\<lparr>free_area := (free_area st)(j \<mapsto> p # ys)\<rparr>"
  have shape: "(free_area ?st k = None) = (k < MIN_ORDER \<or> MAX_ORDER < k)" for k
    using ok ys unfolding lists_ok_def by (cases "k = j") (simp_all, metis option.distinct(1))
  have old: "distinct zs \<and> (\<forall>q\<in>set zs. q < N_PAGES \<and> M' (PAGE_TO_ADDR q) = None)"
    if "free_area st i = Some zs" for i zs
  proof -
    from ok that have "distinct zs" and "\<forall>q\<in>set zs. q < N_PAGES \<and> M (PAGE_TO_ADDR q) = None"
      unfolding lists_ok_def by blast+
    with a [OF that] M' show ?thesis
      by blast
  qed
  have elems: "distinct xs \<and> (\<forall>q\<in>set xs. q < N_PAGES \<and> M' (PAGE_TO_ADDR q) = None)"
    if xs: "free_area ?st k = Some xs" for k xs
  proof (cases "k = j")
    case True
    with xs have "xs = p # ys"
      by simp
    with old [OF ys] p(1,2) p(3) [OF ys] show ?thesis
      by simp
  next
    case False
    with xs have "free_area st k = Some xs"
      by simp
    then show ?thesis
      by (rule old)
  qed
  from shape elems show ?thesis
    unfolding lists_ok_def by blast
qed

lemma split_step:
  assumes inv: "buddy_inv st M" and Ma: "M a = Some (Suc j)" and a: "a = PAGE_TO_ADDR left"
    and j: "MIN_ORDER \<le> j"
  defines "right \<equiv> ADDR_TO_PAGE (BUDDY_ADDR (blockAddress (g_pages st left)) j)"
  shows "\<exists>st'. free_area_add right j (set_blockOrder right (int j) st) = Inr st' \<and>
           buddy_inv st' (M(a \<mapsto> j)) \<and> PAGE_TO_ADDR right = a + 2 ^ j \<and> M (a + 2 ^ j) = None \<and>
           right < N_PAGES \<and> (\<forall>p. p \<noteq> right \<longrightarrow> g_pages st' p = g_pages st p)"
proof -
  have blk: "(a, Suc j) \<in> blocks st M"
    using Ma by (rule live_in_blocks)
  have wf: "wf_block (a, Suc j)"
    using inv blk by (rule inv_wf)
  note sp = wf_block_split [OF wf j]
  have jmax: "j \<le> MAX_ORDER"
    using wf by (simp add: wf_block_def)
  have "left = ADDR_TO_PAGE a"
    by (simp add: a ADDR_TO_PAGE_PAGE_TO_ADDR)
  with wf_block_page(3) [OF wf] have "left < N_PAGES"
    by simp
  with inv_pages [OF inv] a have addr: "blockAddress (g_pages st left) = a"
    by simp
  have "2 ^ Suc j dvd a"
    using wf by (simp add: wf_block_def)
  then have xor: "BUDDY_ADDR a j = a + 2 ^ j"
    unfolding BUDDY_ADDR_def by (rule xor_pow_add)
  define r where "r = a + 2 ^ j"
  have right: "right = ADDR_TO_PAGE r"
    by (simp add: right_def addr xor r_def)
  have wfr: "wf_block (r, j)"
    unfolding r_def by (rule sp(2))
  have rlt: "right < N_PAGES" and rad: "PAGE_TO_ADDR right = r"
    unfolding right by (rule wf_block_page [OF wfr])+
  have r_cov: "r \<in> cover (a, Suc j)" and ne: "r \<noteq> a"
    by (simp_all add: r_def cover_def)
  note inside = no_block_inside [OF inv blk r_cov ne]
  obtain ys where ys: "free_area st j = Some ys"
    using inv_list [OF inv j jmax] by blast
  define st' where "st' = (set_blockOrder right (int j) st)\<lparr>free_area := (free_area st)(j \<mapsto> right # ys)\<rparr>"
  have add: "free_area_add right j (set_blockOrder right (int j) st) = Inr st'"
    using ys jmax by (simp add: free_area_add_def st'_def list_add_def)
  have pg: "\<forall>p. p \<noteq> right \<longrightarrow> g_pages st' p = g_pages st p"
    by (simp add: st'_def set_blockOrder_def)
  have pages: "pages_ok st'"
    using inv by (simp add: st'_def buddy_inv_def)
  have lists0: "lists_ok (set_blockOrder right (int j) st) M"
    using inv by (simp add: buddy_inv_def lists_ok_def)
  have "lists_ok ((set_blockOrder right (int j) st)\<lparr>free_area := (free_area (set_blockOrder right (int j) st))(j \<mapsto> right # ys)\<rparr>) (M(a \<mapsto> j))"
  proof (rule lists_ok_cons [OF lists0, where a = a])
    show "free_area (set_blockOrder right (int j) st) j = Some ys"
      using ys by simp
    show "right < N_PAGES"
      by (rule rlt)
    show "(M(a \<mapsto> j)) (PAGE_TO_ADDR right) = None"
      using inside(1) ne by (simp add: rad)
    show "right \<notin> set xs" if "free_area (set_blockOrder right (int j) st) i = Some xs" for i xs
      using inside(2) [OF _ rad] that by simp
    show "(M(a \<mapsto> j)) x = None" if "M x = None" "x \<noteq> a" for x
      using that by simp
    show "PAGE_TO_ADDR q \<noteq> a" if "free_area (set_blockOrder right (int j) st) i = Some xs" "q \<in> set xs" for i xs q
      using inv_free_not_live [OF inv _ that(2), of i] that(1) Ma by auto
  qed
  then have lists: "lists_ok st' (M(a \<mapsto> j))"
    by (simp add: st'_def)
  have fb: "free_blocks st' = insert (r, j) (free_blocks st)"
    using free_blocks_cons [of "set_blockOrder right (int j) st" j ys right] ys
    by (simp add: st'_def rad)
  have nfa: "(a, k) \<notin> free_blocks st" for k
    using inv by (rule free_blocks_not_live) (simp add: Ma)
  have "blocks st' (M(a \<mapsto> j)) = (blocks st M - {(a, Suc j)}) \<union> {(a, j), (r, j)}"
    unfolding blocks_def fb live_blocks_upd
    using nfa live_blocks_at [of M a "Suc j", OF Ma] by blast
  moreover have "partitioned ((blocks st M - {(a, Suc j)}) \<union> {(a, j), (r, j)})"
  proof (rule partitioned_replace)
    show "partitioned (blocks st M)"
      using inv by (simp add: buddy_inv_def)
    show "{(a, Suc j)} \<subseteq> blocks st M"
      using blk by simp
    show "\<forall>c\<in>{(a, j), (r, j)}. wf_block c"
      using sp(1) wfr by simp
    show "\<forall>b\<in>{(a, j), (r, j)}. \<forall>c\<in>{(a, j), (r, j)}. b \<noteq> c \<longrightarrow> cover b \<inter> cover c = {}"
      using sp(4) by (auto simp: r_def)
    show "(\<Union>c\<in>{(a, j), (r, j)}. cover c) = (\<Union>c\<in>{(a, Suc j)}. cover c)"
      using sp(3) by (simp add: r_def)
  qed
  ultimately have "partitioned (blocks st' (M(a \<mapsto> j)))"
    by simp
  with pages lists have "buddy_inv st' (M(a \<mapsto> j))"
    by (simp add: buddy_inv_def)
  with add rad inside(1) rlt pg show ?thesis
    unfolding r_def by blast
qed

lemma live_page_aligned:
  assumes "buddy_inv st M" "M x \<noteq> None"
  shows "PAGE_TO_ADDR (ADDR_TO_PAGE x) = x"
proof -
  from assms(2) obtain k where "M x = Some k"
    by auto
  then have "(x, k) \<in> blocks st M"
    by (rule live_in_blocks)
  with assms(1) have "wf_block (x, k)"
    by (rule inv_wf)
  then show ?thesis
    by (rule wf_block_page)
qed

lemma alloc_split_inv:
  assumes "buddy_inv st M" "M a = Some j" "a = PAGE_TO_ADDR left" "MIN_ORDER \<le> bo" "bo \<le> j"
  shows "\<exists>st'. alloc_split st left j bo = Inr st' \<and> buddy_inv st' (M(a \<mapsto> bo)) \<and>
           (\<forall>x. M x \<noteq> None \<longrightarrow> g_pages st' (ADDR_TO_PAGE x) = g_pages st (ADDR_TO_PAGE x))"
  using assms
proof (induction j arbitrary: st M)
  case 0
  then show ?case
    by (simp add: MIN_ORDER_def)
next
  case (Suc j)
  show ?case
  proof (cases "Suc j = bo")
    case True
    with Suc.prems(2) have "M(a \<mapsto> bo) = M"
      by (simp add: fun_upd_idem)
    with True Suc.prems(1) show ?thesis
      by (subst alloc_split.simps) simp
  next
    case False
    with Suc.prems have bo: "bo \<le> j" and j: "MIN_ORDER \<le> j"
      by simp_all
    let ?right = "ADDR_TO_PAGE (BUDDY_ADDR (blockAddress (g_pages st left)) j)"
    from split_step [OF Suc.prems(1,2,3) j]
    obtain st1 where add: "free_area_add ?right j (set_blockOrder ?right (int j) st) = Inr st1"
      and inv1: "buddy_inv st1 (M(a \<mapsto> j))"
      and rad: "PAGE_TO_ADDR ?right = a + 2 ^ j" and Mr: "M (a + 2 ^ j) = None"
      and rlt: "?right < N_PAGES"
      and pg: "\<forall>p. p \<noteq> ?right \<longrightarrow> g_pages st1 p = g_pages st p"
      by blast
    have "(M(a \<mapsto> j)) a = Some j"
      by simp
    from Suc.IH [OF inv1 this Suc.prems(3,4) bo]
    obtain st' where sp: "alloc_split st1 left j bo = Inr st'"
      and inv': "buddy_inv st' ((M(a \<mapsto> j))(a \<mapsto> bo))"
      and pg': "\<forall>x. (M(a \<mapsto> j)) x \<noteq> None \<longrightarrow> g_pages st' (ADDR_TO_PAGE x) = g_pages st1 (ADDR_TO_PAGE x)"
      by blast
    have "alloc_split st left (Suc j) bo = Inr st'"
      using False add sp rlt by (subst alloc_split.simps) (simp add: Let_def)
    moreover have "buddy_inv st' (M(a \<mapsto> bo))"
      using inv' by simp
    moreover have "g_pages st' (ADDR_TO_PAGE x) = g_pages st (ADDR_TO_PAGE x)" if "M x \<noteq> None" for x
    proof -
      have "ADDR_TO_PAGE x \<noteq> ?right"
      proof
        assume "ADDR_TO_PAGE x = ?right"
        then have "PAGE_TO_ADDR (ADDR_TO_PAGE x) = a + 2 ^ j"
          using rad by simp
        with live_page_aligned [OF Suc.prems(1) that] Mr that show False
          by simp
      qed
      with pg have "g_pages st1 (ADDR_TO_PAGE x) = g_pages st (ADDR_TO_PAGE x)"
        by simp
      moreover from pg' that have "g_pages st' (ADDR_TO_PAGE x) = g_pages st1 (ADDR_TO_PAGE x)"
        by simp
      ultimately show ?thesis
        by simp
    qed
    ultimately show ?thesis
      by blast
  qed
qed


lemma inv_one_list:
  assumes inv: "buddy_inv st M" and "free_area st i = Some xs" "free_area st k = Some zs"
    and "p \<in> set xs" "p \<in> set zs"
  shows "i = k"
proof -
  have "(PAGE_TO_ADDR p, i) \<in> blocks st M" "(PAGE_TO_ADDR p, k) \<in> blocks st M"
    using assms(2-5) by (auto intro: free_in_blocks)
  from inv_same_block [OF inv this base_in_cover base_in_cover] show ?thesis
    by simp
qed

lemma lists_ok_remove1:
  assumes ok: "lists_ok st M" and xs: "free_area st i = Some xs"
    and M': "\<And>q k zs. free_area st k = Some zs \<Longrightarrow> q \<in> set zs \<Longrightarrow> k \<noteq> i \<or> q \<noteq> p \<Longrightarrow>
                M' (PAGE_TO_ADDR q) = None"
  shows "lists_ok (st\<lparr>free_area := (free_area st)(i \<mapsto> remove1 p xs)\<rparr>) M'"
proof -
  let ?st = "st\<lparr>free_area := (free_area st)(i \<mapsto> remove1 p xs)\<rparr>"
  have shape: "(free_area ?st k = None) = (k < MIN_ORDER \<or> MAX_ORDER < k)" for k
    using ok xs unfolding lists_ok_def by (cases "k = i") (simp_all, metis option.distinct(1))
  have old: "distinct zs \<and> (\<forall>q\<in>set zs. q < N_PAGES)" if "free_area st k = Some zs" for k zs
    using ok that unfolding lists_ok_def by blast
  have elems: "distinct zs \<and> (\<forall>q\<in>set zs. q < N_PAGES \<and> M' (PAGE_TO_ADDR q) = None)"
    if zs: "free_area ?st k = Some zs" for k zs
  proof (cases "k = i")
    case True
    with zs have eq: "zs = remove1 p xs"
      by simp
    from old [OF xs] have d: "distinct xs" and lt: "\<forall>q\<in>set xs. q < N_PAGES"
      by simp_all
    have "M' (PAGE_TO_ADDR q) = None" if "q \<in> set zs" for q
    proof (rule M' [OF xs])
      from that d show "q \<in> set xs" and "i \<noteq> i \<or> q \<noteq> p"
        by (simp_all add: eq)
    qed
    with d lt show ?thesis
      by (auto simp: eq)
  next
    case False
    with zs have z: "free_area st k = Some zs"
      by simp
    with False M' have "M' (PAGE_TO_ADDR q) = None" if "q \<in> set zs" for q
      using that by blast
    with old [OF z] show ?thesis
      by simp
  qed
  from shape elems show ?thesis
    unfolding lists_ok_def by blast
qed

text \<open>Taking the first block of a free list: it becomes the caller's, at the list's order.\<close>

lemma alloc_take_inv:
  assumes inv: "buddy_inv st L" and xs: "free_area st i = Some xs" "xs \<noteq> []"
  shows "buddy_inv ((set_blockOrder (hd xs) v st)\<lparr>free_area := (free_area st)(i \<mapsto> list_del (hd xs) xs)\<rparr>)
           (L(PAGE_TO_ADDR (hd xs) \<mapsto> i)) \<and>
         L (PAGE_TO_ADDR (hd xs)) = None \<and> hd xs < N_PAGES"
proof -
  define left where "left = hd xs"
  define st2 where "st2 = (set_blockOrder left v st)\<lparr>free_area := (free_area st)(i \<mapsto> list_del left xs)\<rparr>"
  have goal: "buddy_inv st2 (L(PAGE_TO_ADDR left \<mapsto> i)) \<and> L (PAGE_TO_ADDR left) = None \<and> left < N_PAGES"
  proof -
    let ?a = "PAGE_TO_ADDR left"
    have mem: "left \<in> set xs"
      using xs(2) by (simp add: left_def)
    have none: "L ?a = None"
      using inv xs(1) mem by (rule inv_free_not_live)
    have lt: "left < N_PAGES"
      using inv xs(1) mem by (rule inv_free_page)
    have d: "distinct xs"
      using inv xs(1) by (rule inv_distinct)
    have pages: "pages_ok st2"
      using inv by (simp add: st2_def buddy_inv_def)
    have lists0: "lists_ok (set_blockOrder left v st) L"
      using inv by (simp add: buddy_inv_def lists_ok_def)
    have "lists_ok ((set_blockOrder left v st)\<lparr>free_area :=
            (free_area (set_blockOrder left v st))(i \<mapsto> remove1 left xs)\<rparr>) (L(?a \<mapsto> i))"
    proof (rule lists_ok_remove1 [OF lists0])
      show "free_area (set_blockOrder left v st) i = Some xs"
        using xs(1) by simp
      fix q k zs
      assume zs: "free_area (set_blockOrder left v st) k = Some zs" and q: "q \<in> set zs"
        and ne: "k \<noteq> i \<or> q \<noteq> left"
      from zs have zs': "free_area st k = Some zs"
        by simp
      have "q \<noteq> left"
      proof
        assume "q = left"
        with inv_one_list [OF inv xs(1) zs' mem] q ne show False
          by simp
      qed
      then have "PAGE_TO_ADDR q \<noteq> ?a"
        by (simp add: PAGE_TO_ADDR_inj)
      moreover have "L (PAGE_TO_ADDR q) = None"
        using inv zs' q by (rule inv_free_not_live)
      ultimately show "(L(?a \<mapsto> i)) (PAGE_TO_ADDR q) = None"
        by simp
    qed
    then have lists: "lists_ok st2 (L(?a \<mapsto> i))"
      by (simp add: st2_def list_del_def)
    have fb: "free_blocks st2 = free_blocks st - {(?a, i)}"
      using free_blocks_remove1 [of "set_blockOrder left v st" i xs left] xs(1) d mem
      by (simp add: st2_def list_del_def)
    have "(?a, i) \<in> free_blocks st"
      using xs(1) mem by (auto simp: free_blocks_iff)
    then have "blocks st2 (L(?a \<mapsto> i)) = blocks st L"
      unfolding blocks_def fb live_blocks_upd
      using live_blocks_none [of L ?a, OF none] by blast
    with inv have "partitioned (blocks st2 (L(?a \<mapsto> i)))"
      by (simp add: buddy_inv_def)
    with pages lists none lt show ?thesis
      by (simp add: buddy_inv_def)
  qed
  then show ?thesis
    by (simp add: st2_def left_def)
qed

lemma alloc_scan_inv:
  assumes "buddy_inv st L" "orders_ok st L" "MIN_ORDER \<le> bo" "bo \<le> i"
  shows "(\<exists>a st'. alloc_scan st bo i = Inr (Some a, st') \<and> L a = None \<and>
            buddy_inv st' (L(a \<mapsto> bo)) \<and> orders_ok st' (L(a \<mapsto> bo))) \<or>
         alloc_scan st bo i = Inr (None, st)"
  using assms
proof (induction st bo i rule: alloc_scan.induct)
  case (1 st bo i)
  show ?case
  proof (cases "i \<le> MAX_ORDER")
    case False
    then show ?thesis
      by (subst (1 2) alloc_scan.simps) simp
  next
    case True
    with "1.prems" have "MIN_ORDER \<le> i"
      by simp
    from inv_list [OF "1.prems"(1) this True] obtain xs where xs: "free_area st i = Some xs"
      by blast
    show ?thesis
    proof (cases "xs = []")
      case empty: True
      have le: "list_empty xs"
        by (simp add: list_empty_def empty)
      have "bo \<le> Suc i"
        using "1.prems"(4) by simp
      from "1.IH" [OF True xs le "1.prems"(1,2,3) this]
      have "(\<exists>a st'. alloc_scan st bo (Suc i) = Inr (Some a, st') \<and> L a = None \<and>
               buddy_inv st' (L(a \<mapsto> bo)) \<and> orders_ok st' (L(a \<mapsto> bo))) \<or>
            alloc_scan st bo (Suc i) = Inr (None, st)" .
      moreover have "alloc_scan st bo i = alloc_scan st bo (Suc i)"
        using True xs empty by (subst alloc_scan.simps) (simp add: list_empty_def)
      ultimately show ?thesis
        by (simp only:)
    next
      case False
      define left where "left = hd xs"
      define a where "a = PAGE_TO_ADDR left"
      define st2 where "st2 = (set_blockOrder left (int bo) st)\<lparr>free_area :=
        (free_area st)(i \<mapsto> list_del left xs)\<rparr>"
      from alloc_take_inv [OF "1.prems"(1) xs False, of "int bo"]
      have take: "buddy_inv st2 (L(a \<mapsto> i))" "L a = None" "left < N_PAGES"
        by (simp_all add: left_def st2_def a_def)
      have "(L(a \<mapsto> i)) a = Some i"
        by simp
      from alloc_split_inv [OF take(1) this a_def "1.prems"(3,4)]
      obtain st3 where sp: "alloc_split st2 left i bo = Inr st3"
        and inv3: "buddy_inv st3 ((L(a \<mapsto> i))(a \<mapsto> bo))"
        and pg: "\<forall>x. (L(a \<mapsto> i)) x \<noteq> None \<longrightarrow> g_pages st3 (ADDR_TO_PAGE x) = g_pages st2 (ADDR_TO_PAGE x)"
        by blast
      from inv3 have inv3': "buddy_inv st3 (L(a \<mapsto> bo))"
        by simp
      have left: "ADDR_TO_PAGE a = left"
        by (simp add: a_def ADDR_TO_PAGE_PAGE_TO_ADDR)
      have addr: "blockAddress (g_pages st3 left) = a"
        using inv_pages [OF inv3' take(3)] by (simp add: a_def)
      have res: "alloc_scan st bo i = Inr (Some a, st3)"
        using True xs False sp addr
        by (subst alloc_scan.simps) (simp add: list_empty_def Let_def left_def st2_def)
      have "orders_ok st3 (L(a \<mapsto> bo))"
        unfolding orders_ok_def
      proof (intro allI impI)
        fix x k
        assume xk: "(L(a \<mapsto> bo)) x = Some k"
        then have "(L(a \<mapsto> i)) x \<noteq> None"
          by (simp split: if_splits)
        with pg have eq: "g_pages st3 (ADDR_TO_PAGE x) = g_pages st2 (ADDR_TO_PAGE x)"
          by simp
        show "blockOrder (g_pages st3 (ADDR_TO_PAGE x)) = int k"
        proof (cases "x = a")
          case True
          with xk have "k = bo"
            by simp
          moreover from eq True left have "g_pages st3 left = g_pages st2 left"
            by simp
          ultimately show ?thesis
            using True left by (simp add: st2_def)
        next
          case False
          with xk have Lx: "L x = Some k"
            by simp
          then have "L x \<noteq> None"
            by simp
          from live_page_aligned [OF "1.prems"(1) this] False have "ADDR_TO_PAGE x \<noteq> left"
            by (auto simp: a_def)
          then have "g_pages st2 (ADDR_TO_PAGE x) = g_pages st (ADDR_TO_PAGE x)"
            by (simp add: st2_def set_blockOrder_def)
          with eq Lx "1.prems"(2) show ?thesis
            by (simp add: orders_ok_def)
        qed
      qed
      with res take(2) inv3' show ?thesis
        unfolding a_def by blast
    qed
  qed
qed

lemma free_insert_inv:
  assumes inv: "buddy_inv st M" and Mc: "M c = Some i" and c: "c = PAGE_TO_ADDR fp"
  shows "\<exists>st'. free_insert st fp i = Inr st' \<and> buddy_inv st' (M(c := None)) \<and>
           (\<forall>p. p \<noteq> fp \<longrightarrow> g_pages st' p = g_pages st p) \<and> (c, i) \<in> free_blocks st'"
proof -
  have blk: "(c, i) \<in> blocks st M"
    using Mc by (rule live_in_blocks)
  have wf: "wf_block (c, i)"
    using inv blk by (rule inv_wf)
  then have i: "MIN_ORDER \<le> i" "i \<le> MAX_ORDER"
    by (simp_all add: wf_block_def)
  have "fp = ADDR_TO_PAGE c"
    by (simp add: c ADDR_TO_PAGE_PAGE_TO_ADDR)
  with wf_block_page(3) [OF wf] have fp: "fp < N_PAGES"
    by simp
  obtain xs where xs: "free_area st i = Some xs"
    using inv_list [OF inv i] by blast
  let ?st1 = "set_blockOrder fp (int i) st"
  define st' where "st' = ?st1\<lparr>free_area := (free_area ?st1)(i \<mapsto> fp # xs)\<rparr>"
  have ins: "free_insert st fp i = Inr st'"
    using xs i by (simp add: free_insert_def free_area_add_def st'_def list_add_def)
  have pg: "\<forall>p. p \<noteq> fp \<longrightarrow> g_pages st' p = g_pages st p"
    by (simp add: st'_def set_blockOrder_def)
  have pages: "pages_ok st'"
    using inv by (simp add: st'_def buddy_inv_def)
  have lists0: "lists_ok ?st1 M"
    using inv by (simp add: buddy_inv_def lists_ok_def)
  have lists: "lists_ok st' (M(c := None))"
    unfolding st'_def
  proof (rule lists_ok_cons [OF lists0, where a = c])
    show "free_area ?st1 i = Some xs"
      using xs by simp
    show "fp < N_PAGES"
      by (rule fp)
    show "(M(c := None)) (PAGE_TO_ADDR fp) = None"
      by (simp add: c)
    show "fp \<notin> set zs" if "free_area ?st1 k = Some zs" for k zs
      using inv_free_not_live [OF inv, of k zs fp] that Mc c by auto
    show "(M(c := None)) x = None" if "M x = None" "x \<noteq> c" for x
      using that by simp
    show "PAGE_TO_ADDR q \<noteq> c" if "free_area ?st1 k = Some zs" "q \<in> set zs" for k zs q
      using inv_free_not_live [OF inv, of k zs q] that Mc by auto
  qed
  have fb: "free_blocks st' = insert (c, i) (free_blocks st)"
    using free_blocks_cons [of ?st1 i xs fp] xs by (simp add: st'_def c)
  have "blocks st' (M(c := None)) = blocks st M"
    unfolding blocks_def fb live_blocks_del using live_blocks_at [of M c i, OF Mc] by blast
  with inv have "partitioned (blocks st' (M(c := None)))"
    by (simp add: buddy_inv_def)
  with pages lists have "buddy_inv st' (M(c := None))"
    by (simp add: buddy_inv_def)
  moreover have "(c, i) \<in> free_blocks st'"
    by (simp add: fb)
  ultimately show ?thesis
    using ins pg by blast
qed

lemma other_live_page:
  assumes inv: "buddy_inv st M" and x: "M x \<noteq> None" "x \<noteq> PAGE_TO_ADDR p"
  shows "ADDR_TO_PAGE x \<noteq> p"
  using live_page_aligned [OF inv x(1)] x(2) by auto

lemma free_merge_inv:
  assumes "buddy_inv st M" "M c = Some i" "c = PAGE_TO_ADDR fp"
  shows "\<exists>st'. free_merge st fp i = Inr st' \<and> buddy_inv st' (M(c := None)) \<and>
           (\<forall>x. M x \<noteq> None \<and> x \<noteq> c \<longrightarrow> g_pages st' (ADDR_TO_PAGE x) = g_pages st (ADDR_TO_PAGE x)) \<and>
           (\<exists>c' k. i \<le> k \<and> (c', k) \<in> free_blocks st' \<and> cover (c, i) \<subseteq> cover (c', k) \<and>
              (k = i) = (\<not> (i < MAX_ORDER \<and> (BUDDY_ADDR c i, i) \<in> free_blocks st)))"
  using assms
proof (induction st fp i arbitrary: M c rule: free_merge.induct)
  case (1 st fp i)
  note inv = "1.prems"(1) and Mc = "1.prems"(2) and c = "1.prems"(3)
  have blk: "(c, i) \<in> blocks st M"
    using Mc by (rule live_in_blocks)
  have wf: "wf_block (c, i)"
    using inv blk by (rule inv_wf)
  then have i: "MIN_ORDER \<le> i" "i \<le> MAX_ORDER"
    by (simp_all add: wf_block_def)
  have fpc: "fp = ADDR_TO_PAGE c"
    by (simp add: c ADDR_TO_PAGE_PAGE_TO_ADDR)
  with wf_block_page(3) [OF wf] have fp: "fp < N_PAGES"
    by simp
  with inv_pages [OF inv] c have addr: "blockAddress (g_pages st fp) = c"
    by simp
  obtain xs where xs: "free_area st i = Some xs"
    using inv_list [OF inv i] by blast
  define b where "b = c XOR 2 ^ i"
  define bp where "bp = ADDR_TO_PAGE b"
  have bp: "ADDR_TO_PAGE (BUDDY_ADDR (blockAddress (g_pages st fp)) i) = bp"
    by (simp add: addr BUDDY_ADDR_def b_def bp_def)
  have "PAGE_SIZE dvd b"
    unfolding b_def using wf_block_page(1) [OF wf] i(1) by (rule xor_pow_page)
  then have bad: "PAGE_TO_ADDR bp = b"
    unfolding bp_def by (rule PAGE_TO_ADDR_ADDR_TO_PAGE)
  from free_insert_inv [OF inv Mc c]
  obtain st1 where ins: "free_insert st fp i = Inr st1" and inv1: "buddy_inv st1 (M(c := None))"
    and pg1: "\<forall>p. p \<noteq> fp \<longrightarrow> g_pages st1 p = g_pages st p"
    and in1: "(c, i) \<in> free_blocks st1"
    by blast
  have buddy_free_iff: "((BUDDY_ADDR c i, i) \<in> free_blocks st) = (bp \<in> set xs)"
  proof
    assume "(BUDDY_ADDR c i, i) \<in> free_blocks st"
    then obtain p where "b = PAGE_TO_ADDR p" "p \<in> set xs"
      using xs by (auto simp: free_blocks_iff BUDDY_ADDR_def b_def)
    with bad show "bp \<in> set xs"
      by (simp add: PAGE_TO_ADDR_inj)
  next
    assume "bp \<in> set xs"
    with xs bad show "(BUDDY_ADDR c i, i) \<in> free_blocks st"
      unfolding free_blocks_iff BUDDY_ADDR_def b_def [symmetric] by auto
  qed
  have stop: "\<exists>st'. free_insert st fp i = Inr st' \<and> buddy_inv st' (M(c := None)) \<and>
           (\<forall>x. M x \<noteq> None \<and> x \<noteq> c \<longrightarrow> g_pages st' (ADDR_TO_PAGE x) = g_pages st (ADDR_TO_PAGE x)) \<and>
           (\<exists>c' k. i \<le> k \<and> (c', k) \<in> free_blocks st' \<and> cover (c, i) \<subseteq> cover (c', k) \<and>
              (k = i) = (\<not> (i < MAX_ORDER \<and> (BUDDY_ADDR c i, i) \<in> free_blocks st)))"
    if nomerge: "\<not> (i < MAX_ORDER \<and> bp \<in> set xs)"
  proof -
    have "g_pages st1 (ADDR_TO_PAGE x) = g_pages st (ADDR_TO_PAGE x)" if "M x \<noteq> None \<and> x \<noteq> c" for x
    proof -
      from that other_live_page [OF inv, of x fp] c have "ADDR_TO_PAGE x \<noteq> fp"
        by simp
      with pg1 show ?thesis
        by simp
    qed
    moreover have "i \<le> i \<and> (c, i) \<in> free_blocks st1 \<and> cover (c, i) \<subseteq> cover (c, i) \<and>
        (i = i) = (\<not> (i < MAX_ORDER \<and> (BUDDY_ADDR c i, i) \<in> free_blocks st))"
      using in1 nomerge by (simp add: buddy_free_iff)
    then have "\<exists>c' k. i \<le> k \<and> (c', k) \<in> free_blocks st1 \<and> cover (c, i) \<subseteq> cover (c', k) \<and>
        (k = i) = (\<not> (i < MAX_ORDER \<and> (BUDDY_ADDR c i, i) \<in> free_blocks st))"
      by blast
    ultimately show ?thesis
      using ins inv1 by blast
  qed
  show ?case
  proof (cases "i < MAX_ORDER \<and> bp \<in> set xs")
    case False
    then have "free_merge st fp i = free_insert st fp i"
      using xs bp by (subst free_merge.simps) (auto simp: Let_def)
    with stop [OF False] show ?thesis
      by (simp only:)
  next
    case True
    then have lt: "i < MAX_ORDER" and mem: "bp \<in> set xs"
      by simp_all
    have bblk: "(b, i) \<in> blocks st M"
      using free_in_blocks [OF xs mem] bad by simp
    have wfb: "wf_block (b, i)"
      using inv bblk by (rule inv_wf)
    have Mb: "M b = None"
      using inv_free_not_live [OF inv xs mem] bad by simp
    have d: "distinct xs"
      using inv xs by (rule inv_distinct)
    have ne: "b \<noteq> c"
      using Mb Mc by auto
    define c' where "c' = min c b"
    define fp' where "fp' = (if fp > bp then bp else fp)"
    define st2 where "st2 = st\<lparr>free_area := (free_area st)(i \<mapsto> list_del bp xs)\<rparr>"
    define M2 where "M2 = (M(c := None))(c' \<mapsto> Suc i)"
    have c'fp': "c' = PAGE_TO_ADDR fp'"
      unfolding c'_def fp'_def c bad [symmetric]
      by (simp add: PAGE_TO_ADDR_def PAGE_SIZE_def min_def)
    have c'cases: "c' = c \<or> c' = b"
      by (auto simp: c'_def min_def)
    note mg = wf_block_merge [OF wf wfb b_def lt, folded c'_def]
    have pages2: "pages_ok st2"
      using inv by (simp add: st2_def buddy_inv_def)
    have lists2: "lists_ok st2 M2"
      unfolding st2_def list_del_def
    proof (rule lists_ok_remove1 [OF _ xs])
      show "lists_ok st M"
        using inv by (simp add: buddy_inv_def)
      fix q k zs
      assume zs: "free_area st k = Some zs" and q: "q \<in> set zs" and nq: "k \<noteq> i \<or> q \<noteq> bp"
      have Mq: "M (PAGE_TO_ADDR q) = None"
        using inv zs q by (rule inv_free_not_live)
      have "q \<noteq> bp"
      proof
        assume "q = bp"
        with inv_one_list [OF inv xs zs mem] q nq show False
          by simp
      qed
      then have "PAGE_TO_ADDR q \<noteq> b"
        using bad by (auto simp: PAGE_TO_ADDR_inj)
      moreover have "PAGE_TO_ADDR q \<noteq> c"
        using Mq Mc by auto
      ultimately have "PAGE_TO_ADDR q \<noteq> c'"
        using c'cases by auto
      with Mq show "M2 (PAGE_TO_ADDR q) = None"
        by (simp add: M2_def)
    qed
    have fb: "free_blocks st2 = free_blocks st - {(b, i)}"
      using free_blocks_remove1 [OF xs d mem] by (simp add: st2_def list_del_def bad)
    have nfc: "(c, k) \<notin> free_blocks st" for k
      using inv by (rule free_blocks_not_live) (simp add: Mc)
    have lb: "live_blocks M2 = insert (c', Suc i) (live_blocks M - {c} \<times> UNIV)"
      unfolding M2_def live_blocks_upd live_blocks_del
      using c'cases live_blocks_none [of M b, OF Mb] by blast
    have "blocks st2 M2 = (blocks st M - {(c, i), (b, i)}) \<union> {(c', Suc i)}"
      unfolding blocks_def fb lb
      using nfc live_blocks_at [of M c i, OF Mc] live_blocks_none [of M b, OF Mb] by blast
    moreover have "partitioned ((blocks st M - {(c, i), (b, i)}) \<union> {(c', Suc i)})"
    proof (rule partitioned_replace)
      show "partitioned (blocks st M)"
        using inv by (simp add: buddy_inv_def)
      show "{(c, i), (b, i)} \<subseteq> blocks st M"
        using blk bblk by simp
      show "\<forall>x\<in>{(c', Suc i)}. wf_block x"
        using mg(1) by simp
      show "\<forall>x\<in>{(c', Suc i)}. \<forall>y\<in>{(c', Suc i)}. x \<noteq> y \<longrightarrow> cover x \<inter> cover y = {}"
        by simp
      show "(\<Union>x\<in>{(c', Suc i)}. cover x) = (\<Union>x\<in>{(c, i), (b, i)}. cover x)"
        using mg(2) by simp
    qed
    ultimately have "partitioned (blocks st2 M2)"
      by simp
    with pages2 lists2 have inv2: "buddy_inv st2 M2"
      by (simp add: buddy_inv_def)
    have M2c': "M2 c' = Some (Suc i)"
      by (simp add: M2_def)
    have IH: "\<exists>st'. free_merge st2 fp' (Suc i) = Inr st' \<and> buddy_inv st' (M2(c' := None)) \<and>
           (\<forall>x. M2 x \<noteq> None \<and> x \<noteq> c' \<longrightarrow> g_pages st' (ADDR_TO_PAGE x) = g_pages st2 (ADDR_TO_PAGE x)) \<and>
           (\<exists>c'' k. Suc i \<le> k \<and> (c'', k) \<in> free_blocks st' \<and> cover (c', Suc i) \<subseteq> cover (c'', k) \<and>
              (k = Suc i) = (\<not> (Suc i < MAX_ORDER \<and> (BUDDY_ADDR c' (Suc i), Suc i) \<in> free_blocks st2)))"
      unfolding st2_def fp'_def
      by (rule "1.IH" [OF lt bp [symmetric] xs _ _ _ c'fp' [unfolded fp'_def]])
        (use mem inv2 M2c' in \<open>simp_all add: st2_def\<close>)
    then obtain st' where fm: "free_merge st2 fp' (Suc i) = Inr st'"
      and inv': "buddy_inv st' (M2(c' := None))"
      and pg': "\<forall>x. M2 x \<noteq> None \<and> x \<noteq> c' \<longrightarrow> g_pages st' (ADDR_TO_PAGE x) = g_pages st2 (ADDR_TO_PAGE x)"
      and cov': "\<exists>c'' k. Suc i \<le> k \<and> (c'', k) \<in> free_blocks st' \<and> cover (c', Suc i) \<subseteq> cover (c'', k)"
      by blast
    have "M2(c' := None) = M(c := None)"
      using c'cases Mb by (auto simp: M2_def fun_eq_iff)
    with inv' have 1: "buddy_inv st' (M(c := None))"
      by simp
    have 2: "free_merge st fp i = Inr st'"
      using lt xs mem bp fm by (subst free_merge.simps) (simp add: Let_def st2_def fp'_def)
    have 3: "g_pages st' (ADDR_TO_PAGE x) = g_pages st (ADDR_TO_PAGE x)" if "M x \<noteq> None \<and> x \<noteq> c" for x
    proof -
      from that Mb have "x \<noteq> b"
        by auto
      with that c'cases have "M2 x \<noteq> None \<and> x \<noteq> c'"
        by (auto simp: M2_def)
      with pg' have "g_pages st' (ADDR_TO_PAGE x) = g_pages st2 (ADDR_TO_PAGE x)"
        by simp
      then show ?thesis
        by (simp add: st2_def)
    qed
    from cov' obtain c'' k where "Suc i \<le> k" "(c'', k) \<in> free_blocks st'"
      "cover (c', Suc i) \<subseteq> cover (c'', k)"
      by blast
    with mg(2) lt mem have "i \<le> k \<and> (c'', k) \<in> free_blocks st' \<and> cover (c, i) \<subseteq> cover (c'', k) \<and>
        (k = i) = (\<not> (i < MAX_ORDER \<and> (BUDDY_ADDR c i, i) \<in> free_blocks st))"
      by (simp add: buddy_free_iff)
    then have 4: "\<exists>c' k. i \<le> k \<and> (c', k) \<in> free_blocks st' \<and> cover (c, i) \<subseteq> cover (c', k) \<and>
        (k = i) = (\<not> (i < MAX_ORDER \<and> (BUDDY_ADDR c i, i) \<in> free_blocks st))"
      by blast
    from 1 2 3 4 show ?thesis
      by blast
  qed
qed

section \<open>The operations keep the invariant\<close>

lemma inv_shape: "buddy_inv st L \<Longrightarrow> (free_area st k = None) = (k < MIN_ORDER \<or> MAX_ORDER < k)"
  unfolding buddy_inv_def lists_ok_def by blast

lemma alloc_scan_uninit:
  "free_area st i = None \<Longrightarrow> i \<le> MAX_ORDER \<Longrightarrow> alloc_scan st bo i = Inl Uninit_list"
  by (subst alloc_scan.simps) simp

lemma buddy_alloc_some_inv:
  assumes inv: "buddy_inv st L" and ord: "orders_ok st L"
    and res: "buddy_alloc st sz = Inr (Some a, st')"
  shows "L a = None \<and> buddy_inv st' (L(a \<mapsto> ceillog2 (nat sz))) \<and>
         orders_ok st' (L(a \<mapsto> ceillog2 (nat sz)))"
proof -
  define bo where "bo = ceillog2 (nat sz)"
  from res have sc: "alloc_scan st bo bo = Inr (Some a, st')" and le: "bo \<le> MAX_ORDER"
    by (auto simp: buddy_alloc_def Let_def bo_def split: if_splits)
  have "MIN_ORDER \<le> bo"
  proof (rule ccontr)
    assume "\<not> MIN_ORDER \<le> bo"
    then have "free_area st bo = None"
      using inv_shape [OF inv] by simp
    from alloc_scan_uninit [OF this le] sc show False
      by simp
  qed
  from alloc_scan_inv [OF inv ord this order_refl] sc show ?thesis
    unfolding bo_def by auto
qed

lemma buddy_alloc_none_same: "buddy_alloc st sz = Inr (None, st') \<Longrightarrow> st' = st"
  by (auto simp: buddy_alloc_def Let_def alloc_scan_null_iff split: if_splits)

lemma ceillog2_ge_MIN:
  assumes "2 ^ (MIN_ORDER - 1) < sz"
  shows "MIN_ORDER \<le> ceillog2 (nat sz)"
proof -
  have "(0::int) < 2 ^ (MIN_ORDER - 1)"
    by simp
  with assms have "0 < sz"
    by linarith
  then have pos: "0 < nat sz"
    by simp
  have "(2::nat) ^ (MIN_ORDER - 1) < nat sz"
    using assms by (simp add: zless_nat_eq_int_zless)
  with pos have "\<not> ceillog2 (nat sz) \<le> MIN_ORDER - 1"
    by (simp add: ceillog2_le_iff)
  then show ?thesis
    by simp
qed

lemma buddy_alloc_no_fault:
  assumes inv: "buddy_inv st L" and ord: "orders_ok st L" and sz: "2 ^ (MIN_ORDER - 1) < sz"
  shows "\<exists>r. buddy_alloc st sz = Inr r"
proof -
  have "(0::int) < 2 ^ (MIN_ORDER - 1)"
    by simp
  with sz have pos: "0 < sz"
    by linarith
  show ?thesis
  proof (cases "MAX_ORDER < ceillog2 (nat sz)")
    case True
    with pos show ?thesis
      by (simp add: buddy_alloc_def)
  next
    case False
    with pos have "buddy_alloc st sz = alloc_scan st (ceillog2 (nat sz)) (ceillog2 (nat sz))"
      by (simp add: buddy_alloc_def Let_def)
    with alloc_scan_inv [OF inv ord ceillog2_ge_MIN [OF sz] order_refl] show ?thesis
      by auto
  qed
qed

lemma buddy_free_inv:
  assumes inv: "buddy_inv st L" and ord: "orders_ok st L" and La: "L a = Some k"
  shows "\<exists>st'. buddy_free st a = Inr st' \<and> buddy_inv st' (L(a := None)) \<and>
           orders_ok st' (L(a := None))"
    and "buddy_free st a = free_merge st (ADDR_TO_PAGE a) k"
proof -
  have "(a, k) \<in> blocks st L"
    using La by (rule live_in_blocks)
  with inv have wf: "wf_block (a, k)"
    by (rule inv_wf)
  note pa = wf_block_page [OF wf]
  have bo: "blockOrder (g_pages st (ADDR_TO_PAGE a)) = int k"
    using ord La by (simp add: orders_ok_def)
  show eq: "buddy_free st a = free_merge st (ADDR_TO_PAGE a) k"
    using pa(3) bo by (simp add: buddy_free_def)
  from free_merge_inv [OF inv La pa(4) [symmetric]]
  obtain st' where fm: "free_merge st (ADDR_TO_PAGE a) k = Inr st'"
    and inv': "buddy_inv st' (L(a := None))"
    and pg: "\<forall>x. L x \<noteq> None \<and> x \<noteq> a \<longrightarrow> g_pages st' (ADDR_TO_PAGE x) = g_pages st (ADDR_TO_PAGE x)"
    by blast
  have "orders_ok st' (L(a := None))"
    using ord pg unfolding orders_ok_def by (auto split: if_splits)
  with eq fm inv' show "\<exists>st'. buddy_free st a = Inr st' \<and> buddy_inv st' (L(a := None)) \<and>
           orders_ok st' (L(a := None))"
    by simp
qed

lemma free_area_post_init:
  "free_area post_init k =
     (if k = MAX_ORDER then Some [0] else if MIN_ORDER \<le> k \<and> k < MAX_ORDER then Some [] else None)"
  by (simp add: post_init_def init_freelist_apply list_add_def INIT_LIST_HEAD_def g_boot_def)

lemma blocks_post_init: "blocks post_init Map.empty = {(0, MAX_ORDER)}"
proof -
  have "(b \<in> free_blocks post_init) = (b = (0, MAX_ORDER))" for b
    by (cases b) (auto simp: free_blocks_iff free_area_post_init PAGE_TO_ADDR_def split: if_splits)
  then have "free_blocks post_init = {(0, MAX_ORDER)}"
    by blast
  then show ?thesis
    by (simp add: blocks_def live_blocks_def)
qed

lemma post_init_inv: "buddy_inv post_init Map.empty" "orders_ok post_init Map.empty"
proof -
  have "pages_ok post_init"
    by (simp add: pages_ok_def post_init_def init_pages_apply)
  moreover have "lists_ok post_init Map.empty"
    unfolding lists_ok_def
    by (auto simp: free_area_post_init N_PAGES_def PAGE_SIZE_def MIN_ORDER_def MAX_ORDER_def
        split: if_splits)
  moreover have "partitioned {(0, MAX_ORDER)}"
    by (simp add: partitioned_def wf_block_def cover_def MIN_ORDER_def MAX_ORDER_def)
  ultimately show "buddy_inv post_init Map.empty"
    by (simp add: buddy_inv_def blocks_post_init)
  show "orders_ok post_init Map.empty"
    by (simp add: orders_ok_def)
qed

lemma exec_op_inv:
  assumes "buddy_inv st L \<and> orders_ok st L" "exec_op (st, L) x = Some (st', L')"
  shows "buddy_inv st' L' \<and> orders_ok st' L'"
proof (cases x)
  case (Alloc sz)
  show ?thesis
  proof (cases "buddy_alloc st sz")
    case (Inl e)
    with assms(2) Alloc show ?thesis
      by simp
  next
    case (Inr r)
    obtain ao st1 where r: "r = (ao, st1)"
      by (cases r)
    show ?thesis
    proof (cases ao)
      case None
      with Inr r assms Alloc buddy_alloc_none_same [of st sz st1] show ?thesis
        by simp
    next
      case (Some a)
      with Inr r have "buddy_alloc st sz = Inr (Some a, st1)"
        by simp
      moreover from assms(1) have "buddy_inv st L" "orders_ok st L"
        by simp_all
      ultimately
      have "buddy_inv st1 (L(a \<mapsto> ceillog2 (nat sz))) \<and> orders_ok st1 (L(a \<mapsto> ceillog2 (nat sz)))"
        using buddy_alloc_some_inv by blast
      with Inr r Some assms(2) Alloc show ?thesis
        by auto
    qed
  qed
next
  case (Free a)
  with assms(2) obtain k where La: "L a = Some k"
    by (cases "L a") simp_all
  from assms(1) have "buddy_inv st L" "orders_ok st L"
    by simp_all
  from buddy_free_inv(1) [OF this La]
  obtain st1 where "buddy_free st a = Inr st1" "buddy_inv st1 (L(a := None))" "orders_ok st1 (L(a := None))"
    by blast
  with Free La assms(2) show ?thesis
    by auto
qed

lemma run_inv:
  "buddy_inv st L \<and> orders_ok st L \<Longrightarrow> run (st, L) ops = Some (st', L') \<Longrightarrow>
     buddy_inv st' L' \<and> orders_ok st' L'"
proof (induction ops arbitrary: st L)
  case Nil
  then show ?case
    by simp
next
  case (Cons x ops)
  from Cons.prems(2) obtain st1 L1 where ex: "exec_op (st, L) x = Some (st1, L1)"
    and rn: "run (st1, L1) ops = Some (st', L')"
    by (auto split: option.splits)
  from exec_op_inv [OF Cons.prems(1) ex] have "buddy_inv st1 L1 \<and> orders_ok st1 L1" .
  from Cons.IH [OF this rn] show ?case .
qed

lemma reachable_inv:
  assumes "run (post_init, Map.empty) ops = Some (st, live)"
  shows "buddy_inv st live" "orders_ok st live"
  using run_inv [OF _ assms] post_init_inv by simp_all

lemma inv_region_partitioned:
  assumes inv: "buddy_inv st L"
  shows "region_partitioned st L"
proof -
  have dj: "\<forall>b\<in>blocks st L. \<forall>c\<in>blocks st L. b \<noteq> c \<longrightarrow> cover b \<inter> cover c = {}"
    and cv: "(\<Union>b\<in>blocks st L. cover b) = {0 ..< 2 ^ MAX_ORDER}"
    using inv by (simp_all add: buddy_inv_def partitioned_def)
  have fl: "\<forall>p k xs. free_area st k = Some xs \<and> p \<in> set xs \<longrightarrow> L (PAGE_TO_ADDR p) = None"
    using inv_free_not_live [OF inv] by blast
  show ?thesis
    unfolding region_partitioned_def by (rule conjI [OF dj conjI [OF cv fl]])
qed


section \<open>Reachable states\<close>

lemma ceillog2_PAGE_SIZE: "ceillog2 PAGE_SIZE = MIN_ORDER"
  by (simp add: PAGE_SIZE_def MIN_ORDER_def ceillog2_rec)

lemma alloc_page_post_init: "\<exists>st. buddy_alloc post_init (int PAGE_SIZE) = Inr (Some 0, st)"
  by (simp add: eval_defs)

lemma run_state_after:
  "run (post_init, Map.empty) ops = Some (st, live) \<Longrightarrow> state_after ops = st \<and> held_after ops = live"
  by (simp add: state_after_def held_after_def)

lemma run_one_alloc:
  "run (post_init, Map.empty) [Alloc (int PAGE_SIZE)] =
     Some (state_after [Alloc (int PAGE_SIZE)], [0 \<mapsto> MIN_ORDER])"
proof -
  from alloc_page_post_init obtain st
    where "buddy_alloc post_init (int PAGE_SIZE) = Inr (Some 0, st)" ..
  then have r: "run (post_init, Map.empty) [Alloc (int PAGE_SIZE)] = Some (st, [0 \<mapsto> MIN_ORDER])"
    by (simp add: ceillog2_PAGE_SIZE)
  with run_state_after [OF r] show ?thesis
    by simp
qed

text \<open>
  C8. In every state that a sequence of valid operations reaches from the state after
  initialisation, each page descriptor is linked into at most one free list, every free
  block's address is aligned to \<open>2 ^ order\<close>, and the free and the allocated blocks
  partition the region without gap or overlap; so an address that \<^verbatim>\<open>buddy_alloc\<close>
  returns is not one the caller still holds. The valid operations themselves never fault:
  freeing a held address, and allocating more than half a page.
\<close>

theorem valid_traces_keep_invariants:
  assumes "run (post_init, Map.empty) ops = Some (st, live)"
  shows "in_one_free_list st \<and> free_aligned st \<and> region_partitioned st live \<and>
         (\<forall>sz a st'. buddy_alloc st sz = Inr (Some a, st') \<longrightarrow> live a = None) \<and>
         (\<forall>a k. live a = Some k \<longrightarrow> (\<exists>st'. buddy_free st a = Inr st')) \<and>
         (\<forall>sz. 2 ^ (MIN_ORDER - 1) < sz \<longrightarrow> (\<exists>r. buddy_alloc st sz = Inr r))"
proof -
  note inv = reachable_inv [OF assms]
  have 1: "in_one_free_list st"
    unfolding in_one_free_list_def using inv_distinct [OF inv(1)] inv_one_list [OF inv(1)]
    by blast
  have 2: "free_aligned st"
    unfolding free_aligned_def
  proof (intro allI impI)
    fix i xs p
    assume h: "free_area st i = Some xs \<and> p \<in> set xs"
    then have "(PAGE_TO_ADDR p, i) \<in> blocks st live"
      by (auto intro: free_in_blocks)
    with inv(1) have "wf_block (PAGE_TO_ADDR p, i)"
      by (rule inv_wf)
    moreover have "p < N_PAGES"
      using inv(1) h by (auto intro: inv_free_page)
    ultimately show "2 ^ i dvd blockAddress (g_pages st p)"
      using inv_pages [OF inv(1)] by (simp add: wf_block_def)
  qed
  have 3: "region_partitioned st live"
    using inv(1) by (rule inv_region_partitioned)
  have 4: "live a = None" if "buddy_alloc st sz = Inr (Some a, st')" for sz a st'
    using buddy_alloc_some_inv [OF inv that] by simp
  have 5: "\<exists>st'. buddy_free st a = Inr st'" if "live a = Some k" for a k
    using buddy_free_inv(1) [OF inv that] by blast
  have 6: "\<exists>r. buddy_alloc st sz = Inr r" if "2 ^ (MIN_ORDER - 1) < sz" for sz
    using inv that by (rule buddy_alloc_no_fault)
  from 1 2 3 4 5 6 show ?thesis
    by blast
qed

theorem valid_traces_keep_invariants_witness:
  "run (post_init, Map.empty) [Alloc (int PAGE_SIZE)] =
     Some (state_after [Alloc (int PAGE_SIZE)], [0 \<mapsto> MIN_ORDER]) \<and>
   in_one_free_list (state_after [Alloc (int PAGE_SIZE)]) \<and>
   free_aligned (state_after [Alloc (int PAGE_SIZE)]) \<and>
   region_partitioned (state_after [Alloc (int PAGE_SIZE)]) [0 \<mapsto> MIN_ORDER]"
  using valid_traces_keep_invariants [OF run_one_alloc] run_one_alloc by blast

text \<open>
  C10. For an address that a successful \<^verbatim>\<open>buddy_alloc\<close> returned and that has not
  been freed, the \<^verbatim>\<open>blockOrder\<close> of its head page is the order of the allocation: it
  is written by the allocation, no allocation and no deallocation of another block changes
  it, and \<^verbatim>\<open>buddy_free\<close> starts merging at exactly this value, although the page is in
  no free list.
\<close>

theorem allocated_block_keeps_order:
  assumes "run (post_init, Map.empty) ops = Some (st, live)" and "live a = Some k"
  shows "blockOrder (g_pages st (ADDR_TO_PAGE a)) = int k \<and>
         buddy_free st a = free_merge st (ADDR_TO_PAGE a) k \<and>
         (\<forall>i xs. free_area st i = Some xs \<longrightarrow> ADDR_TO_PAGE a \<notin> set xs) \<and>
         (\<forall>sz b st'. buddy_alloc st sz = Inr (Some b, st') \<longrightarrow>
            blockOrder (g_pages st' (ADDR_TO_PAGE b)) = int (ceillog2 (nat sz)) \<and>
            blockOrder (g_pages st' (ADDR_TO_PAGE a)) = int k) \<and>
         (\<forall>b j st'. live b = Some j \<and> b \<noteq> a \<and> buddy_free st b = Inr st' \<longrightarrow>
            blockOrder (g_pages st' (ADDR_TO_PAGE a)) = int k)"
proof -
  note inv = reachable_inv [OF assms(1)]
  have 1: "blockOrder (g_pages st (ADDR_TO_PAGE a)) = int k"
    using inv(2) assms(2) by (simp add: orders_ok_def)
  have 2: "buddy_free st a = free_merge st (ADDR_TO_PAGE a) k"
    using inv assms(2) by (rule buddy_free_inv(2))
  have 3: "ADDR_TO_PAGE a \<notin> set xs" if "free_area st i = Some xs" for i xs
  proof
    assume "ADDR_TO_PAGE a \<in> set xs"
    from inv_free_not_live [OF inv(1) that this] live_page_aligned [OF inv(1), of a] assms(2)
    show False
      by simp
  qed
  have 4: "blockOrder (g_pages st' (ADDR_TO_PAGE b)) = int (ceillog2 (nat sz)) \<and>
           blockOrder (g_pages st' (ADDR_TO_PAGE a)) = int k"
    if "buddy_alloc st sz = Inr (Some b, st')" for sz b st'
  proof -
    from buddy_alloc_some_inv [OF inv that]
    have b: "live b = None" and o: "orders_ok st' (live(b \<mapsto> ceillog2 (nat sz)))"
      by simp_all
    from b assms(2) have "a \<noteq> b"
      by auto
    with o assms(2) show ?thesis
      by (simp add: orders_ok_def)
  qed
  have 5: "blockOrder (g_pages st' (ADDR_TO_PAGE a)) = int k"
    if "live b = Some j \<and> b \<noteq> a \<and> buddy_free st b = Inr st'" for b j st'
  proof -
    from that have b: "live b = Some j" and ne: "b \<noteq> a" and fr: "buddy_free st b = Inr st'"
      by simp_all
    from buddy_free_inv(1) [OF inv b] fr have "orders_ok st' (live(b := None))"
      by auto
    with ne assms(2) show ?thesis
      by (simp add: orders_ok_def)
  qed
  from 1 2 3 4 5 show ?thesis
    by blast
qed

theorem allocated_block_keeps_order_witness:
  "run (post_init, Map.empty) [Alloc (int PAGE_SIZE)] =
     Some (state_after [Alloc (int PAGE_SIZE)], [0 \<mapsto> MIN_ORDER]) \<and>
   [0 \<mapsto> MIN_ORDER] (0::nat) = Some MIN_ORDER \<and>
   blockOrder (g_pages (state_after [Alloc (int PAGE_SIZE)]) (ADDR_TO_PAGE 0)) = int MIN_ORDER \<and>
   buddy_free (state_after [Alloc (int PAGE_SIZE)]) 0 =
     free_merge (state_after [Alloc (int PAGE_SIZE)]) (ADDR_TO_PAGE 0) MIN_ORDER"
proof -
  have l: "[0 \<mapsto> MIN_ORDER] (0::nat) = Some MIN_ORDER"
    by simp
  from allocated_block_keeps_order [OF run_one_alloc l] run_one_alloc l show ?thesis
    by blast
qed

text \<open>
  The two sides of the missing lower clamp, in every reachable state: a request of at most
  half a page faults on the list head of its order, which was never initialised; every
  other successful request is served at its own order, inside the region and aligned to
  the block size.
\<close>

lemma alloc_below_page_faults:
  assumes "run (post_init, Map.empty) ops = Some (st, live)"
    and "1 \<le> sz" and "sz \<le> 2 ^ (MIN_ORDER - 1)"
  shows "buddy_alloc st sz = Inl Uninit_list"
proof -
  note inv = reachable_inv [OF assms(1)]
  have "nat sz \<le> 2 ^ (MIN_ORDER - 1)"
    using assms(3) by (simp add: nat_le_iff)
  moreover have "0 < nat sz"
    using assms(2) by simp
  ultimately have "ceillog2 (nat sz) \<le> MIN_ORDER - 1"
    by (simp add: ceillog2_le_iff)
  then have lt: "ceillog2 (nat sz) < MIN_ORDER"
    by (simp add: MIN_ORDER_def)
  then have "free_area st (ceillog2 (nat sz)) = None"
    using inv_shape [OF inv(1)] by simp
  moreover from lt have le: "ceillog2 (nat sz) \<le> MAX_ORDER"
    by (simp add: MIN_ORDER_def MAX_ORDER_def)
  ultimately have "alloc_scan st (ceillog2 (nat sz)) (ceillog2 (nat sz)) = Inl Uninit_list"
    by (rule alloc_scan_uninit)
  with le assms(2) show ?thesis
    by (simp add: buddy_alloc_def Let_def)
qed

lemma alloc_result_aligned:
  assumes "run (post_init, Map.empty) ops = Some (st, live)"
    and "buddy_alloc st sz = Inr (Some a, st')"
  shows "MIN_ORDER \<le> ceillog2 (nat sz) \<and> 2 ^ ceillog2 (nat sz) dvd a \<and>
         a + 2 ^ ceillog2 (nat sz) \<le> 2 ^ MAX_ORDER"
proof -
  note inv = reachable_inv [OF assms(1)]
  from buddy_alloc_some_inv [OF inv assms(2)]
  have inv': "buddy_inv st' (live(a \<mapsto> ceillog2 (nat sz)))"
    by simp
  have "(a, ceillog2 (nat sz)) \<in> blocks st' (live(a \<mapsto> ceillog2 (nat sz)))"
    by (rule live_in_blocks) simp
  with inv' have "wf_block (a, ceillog2 (nat sz))"
    by (rule inv_wf)
  then show ?thesis
    by (simp add: wf_block_def)
qed

section \<open>Bounded loops\<close>

lemma alloc_scan_fuel_enough:
  "Suc MAX_ORDER - i \<le> n \<Longrightarrow> alloc_scan_fuel n st bo i = Some (alloc_scan st bo i)"
proof (induction st bo i arbitrary: n rule: alloc_scan.induct)
  case (1 st bo i)
  show ?case
  proof (cases "i \<le> MAX_ORDER")
    case False
    then show ?thesis
      by (subst alloc_scan_fuel.simps, subst alloc_scan.simps) simp
  next
    case True
    with "1.prems" obtain m where n: "n = Suc m" and m: "Suc MAX_ORDER - Suc i \<le> m"
      by (cases n) auto
    show ?thesis
    proof (cases "free_area st i")
      case None
      with True n show ?thesis
        by (subst alloc_scan_fuel.simps, subst alloc_scan.simps) simp
    next
      case (Some xs)
      show ?thesis
      proof (cases "list_empty xs")
        case empty: True
        from "1.IH" [OF True Some empty m] True Some empty n show ?thesis
          by (subst alloc_scan_fuel.simps, subst alloc_scan.simps) simp
      next
        case False
        with True Some n show ?thesis
          by (subst alloc_scan_fuel.simps, subst alloc_scan.simps)
            (simp add: Let_def split: sum.splits)
      qed
    qed
  qed
qed

lemma alloc_scan_fuel_uninit:
  "free_area st i = None \<Longrightarrow> i \<le> MAX_ORDER \<Longrightarrow>
     alloc_scan_fuel (Suc m) st bo i = Some (alloc_scan st bo i)"
  by (subst alloc_scan_fuel.simps, subst alloc_scan.simps) simp

lemma free_merge_fuel_enough:
  "MAX_ORDER - i \<le> n \<Longrightarrow> free_merge_fuel n st fp i = Some (free_merge st fp i)"
proof (induction st fp i arbitrary: n rule: free_merge.induct)
  case (1 st fp i)
  show ?case
  proof (cases "i < MAX_ORDER")
    case False
    then show ?thesis
      by (subst free_merge_fuel.simps, subst free_merge.simps) simp
  next
    case True
    with "1.prems" obtain m where n: "n = Suc m" and m: "MAX_ORDER - Suc i \<le> m"
      by (cases n) auto
    let ?buddy = "ADDR_TO_PAGE (BUDDY_ADDR (blockAddress (g_pages st fp)) i)"
    show ?thesis
    proof (cases "free_area st i")
      case None
      with True n show ?thesis
        by (subst free_merge_fuel.simps, subst free_merge.simps) simp
    next
      case (Some xs)
      show ?thesis
      proof (cases "?buddy \<in> set xs")
        case mem: True
        from "1.IH" [OF True refl Some mem m] True Some mem n show ?thesis
          by (subst free_merge_fuel.simps, subst free_merge.simps) (simp add: Let_def)
      next
        case False
        with True Some n show ?thesis
          by (subst free_merge_fuel.simps, subst free_merge.simps) (simp add: Let_def)
      qed
    qed
  qed
qed

text \<open>
  C9. The operations are total functions: the loops of \<^verbatim>\<open>buddy_init\<close> and
  \<^verbatim>\<open>buddy_dump\<close> run over fixed ranges and finite lists, and the loops of
  \<^verbatim>\<open>buddy_alloc\<close> and \<^verbatim>\<open>buddy_free\<close> are defined with their termination proofs.
  In every reachable state a budget of \<open>MAX_ORDER - MIN_ORDER + 1\<close> executions of the
  loop body is enough for the order-walking loop of \<^verbatim>\<open>buddy_alloc\<close>, for any size,
  and for the merge loop of \<^verbatim>\<open>buddy_free\<close> on any held address: the budgeted loops
  return, and return what the operations return.
\<close>

theorem loops_within_order_range:
  assumes "run (post_init, Map.empty) ops = Some (st, live)"
  shows "(\<forall>sz. buddy_alloc_fuel (MAX_ORDER - MIN_ORDER + 1) st sz = Some (buddy_alloc st sz)) \<and>
         (\<forall>a k. live a = Some k \<longrightarrow>
            buddy_free_fuel (MAX_ORDER - MIN_ORDER + 1) st a = Some (buddy_free st a))"
proof -
  note inv = reachable_inv [OF assms]
  have 1: "buddy_alloc_fuel (MAX_ORDER - MIN_ORDER + 1) st sz = Some (buddy_alloc st sz)" for sz
  proof (cases "sz \<le> 0 \<or> MAX_ORDER < ceillog2 (nat sz)")
    case True
    then show ?thesis
      by (auto simp: buddy_alloc_fuel_def buddy_alloc_def)
  next
    case False
    define bo where "bo = ceillog2 (nat sz)"
    from False have le: "bo \<le> MAX_ORDER" and pos: "\<not> sz \<le> 0"
      by (simp_all add: bo_def)
    have "alloc_scan_fuel (MAX_ORDER - MIN_ORDER + 1) st bo bo = Some (alloc_scan st bo bo)"
    proof (cases "MIN_ORDER \<le> bo")
      case True
      then show ?thesis
        by (intro alloc_scan_fuel_enough) simp
    next
      case False
      then have "free_area st bo = None"
        using inv_shape [OF inv(1)] by simp
      then show ?thesis
        using le by (simp add: alloc_scan_fuel_uninit)
    qed
    with le pos show ?thesis
      by (simp add: buddy_alloc_fuel_def buddy_alloc_def Let_def bo_def)
  qed
  have 2: "buddy_free_fuel (MAX_ORDER - MIN_ORDER + 1) st a = Some (buddy_free st a)"
    if "live a = Some k" for a k
  proof -
    have "(a, k) \<in> blocks st live"
      using that by (rule live_in_blocks)
    with inv(1) have wf: "wf_block (a, k)"
      by (rule inv_wf)
    then have k: "MIN_ORDER \<le> k"
      by (simp add: wf_block_def)
    have bo: "blockOrder (g_pages st (ADDR_TO_PAGE a)) = int k"
      using inv(2) that by (simp add: orders_ok_def)
    have "free_merge_fuel (MAX_ORDER - MIN_ORDER + 1) st (ADDR_TO_PAGE a) k =
          Some (free_merge st (ADDR_TO_PAGE a) k)"
      using k by (intro free_merge_fuel_enough) simp
    with bo wf_block_page(3) [OF wf] show ?thesis
      by (simp add: buddy_free_fuel_def buddy_free_def)
  qed
  from 1 2 show ?thesis
    by blast
qed

theorem loops_within_order_range_witness:
  "run (post_init, Map.empty) [Alloc (int PAGE_SIZE)] =
     Some (state_after [Alloc (int PAGE_SIZE)], [0 \<mapsto> MIN_ORDER]) \<and>
   buddy_alloc_fuel (MAX_ORDER - MIN_ORDER + 1) (state_after [Alloc (int PAGE_SIZE)]) (int PAGE_SIZE) =
     Some (buddy_alloc (state_after [Alloc (int PAGE_SIZE)]) (int PAGE_SIZE)) \<and>
   buddy_free_fuel (MAX_ORDER - MIN_ORDER + 1) (state_after [Alloc (int PAGE_SIZE)]) 0 =
     Some (buddy_free (state_after [Alloc (int PAGE_SIZE)]) 0)"
proof -
  have l: "[0 \<mapsto> MIN_ORDER] (0::nat) = Some MIN_ORDER"
    by simp
  from loops_within_order_range [OF run_one_alloc] run_one_alloc l show ?thesis
    by blast
qed

section \<open>Freeing two siblings\<close>

lemma set_blockOrder_same: "blockOrder (g_pages st p) = v \<Longrightarrow> set_blockOrder p v st = st"
  by (auto simp: set_blockOrder_def)

lemma free_area_update_same: "free_area st i = Some xs \<Longrightarrow> st\<lparr>free_area := (free_area st)(i \<mapsto> xs)\<rparr> = st"
  by (simp add: fun_upd_idem)

lemma buddy_free_sibling_pair:
  assumes i: "i < MAX_ORDER" and p: "p < N_PAGES" and q: "q < N_PAGES"
    and ap: "blockAddress (g_pages st p) = PAGE_TO_ADDR p"
    and aq: "blockAddress (g_pages st q) = PAGE_TO_ADDR q"
    and sib: "PAGE_TO_ADDR q = BUDDY_ADDR (PAGE_TO_ADDR p) i"
    and op: "blockOrder (g_pages st p) = int i" and oq: "blockOrder (g_pages st q) = int i"
    and xs: "free_area st i = Some xs" and np: "p \<notin> set xs" and nq: "q \<notin> set xs"
  shows "then_do (buddy_free st (PAGE_TO_ADDR p)) (\<lambda>st'. buddy_free st' (PAGE_TO_ADDR q)) =
         free_merge st (min p q) (Suc i)"
proof -
  define st1 where "st1 = st\<lparr>free_area := (free_area st)(i \<mapsto> p # xs)\<rparr>"
  have bq: "ADDR_TO_PAGE (BUDDY_ADDR (PAGE_TO_ADDR p) i) = q"
    by (simp add: sib [symmetric] ADDR_TO_PAGE_PAGE_TO_ADDR)
  have "BUDDY_ADDR (PAGE_TO_ADDR q) i = PAGE_TO_ADDR p"
    by (simp add: sib) (simp add: BUDDY_ADDR_def xor_pow_cancel)
  then have bp: "ADDR_TO_PAGE (BUDDY_ADDR (PAGE_TO_ADDR q) i) = p"
    by (simp add: ADDR_TO_PAGE_PAGE_TO_ADDR)
  have "free_merge st p i = free_insert st p i"
    using i xs nq ap bq by (subst free_merge.simps) (simp add: Let_def)
  also have "\<dots> = Inr st1"
    using i xs op by (simp add: free_insert_def set_blockOrder_same free_area_add_def list_add_def st1_def)
  finally have first: "buddy_free st (PAGE_TO_ADDR p) = Inr st1"
    using p op by (simp add: buddy_free_def ADDR_TO_PAGE_PAGE_TO_ADDR)
  have "free_merge st1 q i =
        free_merge (st1\<lparr>free_area := (free_area st1)(i \<mapsto> list_del p (p # xs))\<rparr>)
          (if q > p then p else q) (Suc i)"
    using i aq bp by (subst free_merge.simps) (simp add: Let_def st1_def)
  also have "st1\<lparr>free_area := (free_area st1)(i \<mapsto> list_del p (p # xs))\<rparr> = st"
    using free_area_update_same [OF xs] by (simp add: st1_def list_del_def)
  also have "(if q > p then p else q) = min p q"
    by (simp add: min_def)
  finally have "buddy_free st1 (PAGE_TO_ADDR q) = free_merge st (min p q) (Suc i)"
    using q oq by (simp add: buddy_free_def ADDR_TO_PAGE_PAGE_TO_ADDR st1_def)
  with first show ?thesis
    by (simp add: then_do_def)
qed

lemma sibling_frees_commute:
  assumes "i < MAX_ORDER" and "p < N_PAGES" and "q < N_PAGES"
    and "blockAddress (g_pages st p) = PAGE_TO_ADDR p"
    and "blockAddress (g_pages st q) = PAGE_TO_ADDR q"
    and "PAGE_TO_ADDR q = BUDDY_ADDR (PAGE_TO_ADDR p) i"
    and "blockOrder (g_pages st p) = int i" and "blockOrder (g_pages st q) = int i"
    and "free_area st i = Some xs" and "p \<notin> set xs" and "q \<notin> set xs"
  shows "then_do (buddy_free st (PAGE_TO_ADDR p)) (\<lambda>st'. buddy_free st' (PAGE_TO_ADDR q)) =
           free_merge st (min p q) (Suc i) \<and>
         then_do (buddy_free st (PAGE_TO_ADDR q)) (\<lambda>st'. buddy_free st' (PAGE_TO_ADDR p)) =
           free_merge st (min p q) (Suc i) \<and>
         (\<forall>ys. free_area st (Suc i) = Some ys \<and>
               (Suc i = MAX_ORDER \<or>
                ADDR_TO_PAGE (BUDDY_ADDR (PAGE_TO_ADDR (min p q)) (Suc i)) \<notin> set ys) \<longrightarrow>
               free_merge st (min p q) (Suc i) =
                 Inr ((set_blockOrder (min p q) (int (Suc i)) st)
                        \<lparr>free_area := (free_area st)(Suc i \<mapsto> min p q # ys)\<rparr>))"
proof (intro conjI allI impI)
  show "then_do (buddy_free st (PAGE_TO_ADDR p)) (\<lambda>st'. buddy_free st' (PAGE_TO_ADDR q)) =
        free_merge st (min p q) (Suc i)"
    using assms by (rule buddy_free_sibling_pair)
  have "PAGE_TO_ADDR p = BUDDY_ADDR (PAGE_TO_ADDR q) i"
    using assms(6) by (simp add: BUDDY_ADDR_def xor_pow_cancel)
  from buddy_free_sibling_pair [OF assms(1,3,2,5,4) this assms(8,7,9,11,10)]
  show "then_do (buddy_free st (PAGE_TO_ADDR q)) (\<lambda>st'. buddy_free st' (PAGE_TO_ADDR p)) =
        free_merge st (min p q) (Suc i)"
    by (simp add: min.commute)
next
  fix ys
  assume h: "free_area st (Suc i) = Some ys \<and>
    (Suc i = MAX_ORDER \<or> ADDR_TO_PAGE (BUDDY_ADDR (PAGE_TO_ADDR (min p q)) (Suc i)) \<notin> set ys)"
  have "blockAddress (g_pages st (min p q)) = PAGE_TO_ADDR (min p q)"
    using assms(4,5) by (simp add: min_def)
  with h assms(1) show "free_merge st (min p q) (Suc i) =
      Inr ((set_blockOrder (min p q) (int (Suc i)) st)\<lparr>free_area := (free_area st)(Suc i \<mapsto> min p q # ys)\<rparr>)"
    by (subst free_merge.simps)
      (auto simp: Let_def free_insert_def free_area_add_def list_add_def)
qed

lemma siblings_pending_inv:
  assumes inv: "buddy_inv st L" and La: "L a = Some i" and Lb: "L b = Some i"
    and sib: "b = a XOR 2 ^ i"
  shows "buddy_inv st ((L(a := None, b := None))(min a b \<mapsto> Suc i)) \<and> i < MAX_ORDER \<and>
         cover (min a b, Suc i) = cover (a, i) \<union> cover (b, i)"
proof -
  let ?M = "(L(a := None, b := None))(min a b \<mapsto> Suc i)"
  have blka: "(a, i) \<in> blocks st L" and blkb: "(b, i) \<in> blocks st L"
    using La Lb by (auto intro: live_in_blocks)
  have wfa: "wf_block (a, i)" and wfb: "wf_block (b, i)"
    using inv blka blkb by (auto intro: inv_wf)
  have lt: "i < MAX_ORDER"
  proof (rule ccontr)
    assume "\<not> i < MAX_ORDER"
    with wfa have i: "i = MAX_ORDER"
      by (simp add: wf_block_def)
    with wfa have "a = 0"
      by (simp add: wf_block_def)
    with sib i have "b = 2 ^ MAX_ORDER"
      by simp
    with wfb i show False
      by (simp add: wf_block_def)
  qed
  note mg = wf_block_merge [OF wfa wfb sib lt]
  have m: "min a b = a \<or> min a b = b"
    by (auto simp: min_def)
  have pages: "pages_ok st"
    using inv by (simp add: buddy_inv_def)
  have lists: "lists_ok st ?M"
  proof -
    have "?M (PAGE_TO_ADDR q) = None" if "free_area st k = Some xs" "q \<in> set xs" for k xs q
    proof -
      have n: "L (PAGE_TO_ADDR q) = None"
        using inv that by (rule inv_free_not_live)
      with La Lb have "PAGE_TO_ADDR q \<noteq> a" "PAGE_TO_ADDR q \<noteq> b"
        by auto
      with m n show ?thesis
        by auto
    qed
    with inv show ?thesis
      unfolding buddy_inv_def lists_ok_def by blast
  qed
  have nfa: "(a, k) \<notin> free_blocks st" for k
    using inv by (rule free_blocks_not_live) (simp add: La)
  have nfb: "(b, k) \<notin> free_blocks st" for k
    using inv by (rule free_blocks_not_live) (simp add: Lb)
  have lb: "live_blocks ?M = insert (min a b, Suc i) (live_blocks L - {a} \<times> UNIV - {b} \<times> UNIV)"
    unfolding live_blocks_upd live_blocks_del using m by blast
  have la: "live_blocks L - {a} \<times> UNIV - {b} \<times> UNIV = live_blocks L - {(a, i), (b, i)}"
    using live_blocks_at [of L a i, OF La] live_blocks_at [of L b i, OF Lb] by blast
  have fr: "free_blocks st - {(a, i), (b, i)} = free_blocks st"
    using nfa nfb by blast
  have "blocks st ?M = free_blocks st \<union> insert (min a b, Suc i) (live_blocks L - {(a, i), (b, i)})"
    by (simp add: blocks_def lb la)
  also have "\<dots> = (free_blocks st - {(a, i), (b, i)}) \<union> (live_blocks L - {(a, i), (b, i)}) \<union>
      {(min a b, Suc i)}"
    unfolding fr by blast
  also have "\<dots> = (blocks st L - {(a, i), (b, i)}) \<union> {(min a b, Suc i)}"
    by (simp add: blocks_def Un_Diff)
  finally have "blocks st ?M = (blocks st L - {(a, i), (b, i)}) \<union> {(min a b, Suc i)}" .
  moreover have "partitioned ((blocks st L - {(a, i), (b, i)}) \<union> {(min a b, Suc i)})"
  proof (rule partitioned_replace)
    show "partitioned (blocks st L)"
      using inv by (simp add: buddy_inv_def)
    show "{(a, i), (b, i)} \<subseteq> blocks st L"
      using blka blkb by simp
    show "\<forall>x\<in>{(min a b, Suc i)}. wf_block x"
      using mg(1) by simp
    show "\<forall>x\<in>{(min a b, Suc i)}. \<forall>y\<in>{(min a b, Suc i)}. x \<noteq> y \<longrightarrow> cover x \<inter> cover y = {}"
      by simp
    show "(\<Union>x\<in>{(min a b, Suc i)}. cover x) = (\<Union>x\<in>{(a, i), (b, i)}. cover x)"
      using mg(2) by simp
  qed
  ultimately have "partitioned (blocks st ?M)"
    by simp
  with pages lists lt mg(2) show ?thesis
    by (simp add: buddy_inv_def)
qed


text \<open>
  C6, amended. In a reachable state where two sibling blocks of order \<open>i\<close> are both
  allocated, freeing both succeeds in either order and gives the same state: the one that
  the merge loop of \<^verbatim>\<open>buddy_free\<close> produces when it is entered with the merged block, of
  the lower of the two addresses, at order \<open>i + 1\<close>. The region stays partitioned, and the
  bytes of both siblings lie in one free block of an order \<open>k > i\<close>, where \<open>k = i + 1\<close>
  if and only if \<open>i + 1\<close> is \<open>MAX_ORDER\<close> or the merged block's own buddy was not free
  before: when that buddy was free and \<open>i + 1 < MAX_ORDER\<close> the merge loop goes on and the
  block is of an order above \<open>i + 1\<close>. In the first case the free block is the merged
  block itself.
\<close>

theorem siblings_free_either_order:
  assumes "run (post_init, Map.empty) ops = Some (st, live)"
    and "live a = Some i" and "live b = Some i" and "b = BUDDY_ADDR a i"
  shows "\<exists>st'. then_do (buddy_free st a) (\<lambda>s. buddy_free s b) = Inr st' \<and>
               then_do (buddy_free st b) (\<lambda>s. buddy_free s a) = Inr st' \<and>
               free_merge st (ADDR_TO_PAGE (min a b)) (Suc i) = Inr st' \<and>
               region_partitioned st' (live(a := None, b := None)) \<and>
               (\<exists>c k. i < k \<and> (c, k) \<in> free_blocks st' \<and> cover (a, i) \<union> cover (b, i) \<subseteq> cover (c, k) \<and>
                  (k = Suc i) =
                    (Suc i = MAX_ORDER \<or> (BUDDY_ADDR (min a b) (Suc i), Suc i) \<notin> free_blocks st)) \<and>
               (Suc i = MAX_ORDER \<or> (BUDDY_ADDR (min a b) (Suc i), Suc i) \<notin> free_blocks st \<longrightarrow>
                  (min a b, Suc i) \<in> free_blocks st')"
proof -
  note inv = reachable_inv [OF assms(1)]
  note La = assms(2) and Lb = assms(3)
  have sib: "b = a XOR 2 ^ i"
    using assms(4) by (simp add: BUDDY_ADDR_def)
  from siblings_pending_inv [OF inv(1) La Lb sib]
  have pinv: "buddy_inv st ((live(a := None, b := None))(min a b \<mapsto> Suc i))"
    and lt: "i < MAX_ORDER"
    and cov: "cover (min a b, Suc i) = cover (a, i) \<union> cover (b, i)"
    by simp_all
  define p where "p = ADDR_TO_PAGE a"
  define q where "q = ADDR_TO_PAGE b"
  have wfa: "wf_block (a, i)" and wfb: "wf_block (b, i)"
    using inv(1) La Lb by (auto intro: inv_wf live_in_blocks)
  have pa: "PAGE_TO_ADDR p = a" and pl: "p < N_PAGES"
    unfolding p_def by (rule wf_block_page [OF wfa])+
  have qb: "PAGE_TO_ADDR q = b" and ql: "q < N_PAGES"
    unfolding q_def by (rule wf_block_page [OF wfb])+
  have ap: "blockAddress (g_pages st p) = PAGE_TO_ADDR p"
    and aq: "blockAddress (g_pages st q) = PAGE_TO_ADDR q"
    using inv_pages [OF inv(1)] pl ql by simp_all
  have op: "blockOrder (g_pages st p) = int i" and oq: "blockOrder (g_pages st q) = int i"
    using inv(2) La Lb by (simp_all add: orders_ok_def p_def q_def)
  have i: "MIN_ORDER \<le> i"
    using wfa by (simp add: wf_block_def)
  obtain xs where xs: "free_area st i = Some xs"
    using inv_list [OF inv(1) i] lt by auto
  have np: "p \<notin> set xs" and nq: "q \<notin> set xs"
    using inv_free_not_live [OF inv(1) xs, of p] inv_free_not_live [OF inv(1) xs, of q]
      La Lb pa qb by auto
  have sib': "PAGE_TO_ADDR q = BUDDY_ADDR (PAGE_TO_ADDR p) i"
    using assms(4) pa qb by simp
  note local = sibling_frees_commute [OF lt pl ql ap aq sib' op oq xs np nq]
  have mpq: "PAGE_TO_ADDR (min p q) = min a b"
    unfolding pa [symmetric] qb [symmetric] by (simp add: PAGE_TO_ADDR_def PAGE_SIZE_def min_def)
  let ?M = "(live(a := None, b := None))(min a b \<mapsto> Suc i)"
  have "?M (min a b) = Some (Suc i)"
    by simp
  from free_merge_inv [OF pinv this mpq [symmetric]]
  obtain st' where fm: "free_merge st (min p q) (Suc i) = Inr st'"
    and inv': "buddy_inv st' (?M(min a b := None))"
    and big: "\<exists>c k. Suc i \<le> k \<and> (c, k) \<in> free_blocks st' \<and> cover (min a b, Suc i) \<subseteq> cover (c, k) \<and>
        (k = Suc i) = (\<not> (Suc i < MAX_ORDER \<and> (BUDDY_ADDR (min a b) (Suc i), Suc i) \<in> free_blocks st))"
    by blast
  have "ADDR_TO_PAGE (min a b) = min p q"
    unfolding mpq [symmetric] by (rule ADDR_TO_PAGE_PAGE_TO_ADDR)
  with fm have 0: "free_merge st (ADDR_TO_PAGE (min a b)) (Suc i) = Inr st'"
    by simp
  have "min a b = a \<or> min a b = b"
    by (auto simp: min_def)
  then have "?M(min a b := None) = live(a := None, b := None)"
    by (auto simp: fun_eq_iff)
  with inv' have inv'': "buddy_inv st' (live(a := None, b := None))"
    by simp
  from local have "then_do (buddy_free st (PAGE_TO_ADDR p)) (\<lambda>s. buddy_free s (PAGE_TO_ADDR q)) =
      free_merge st (min p q) (Suc i)"
    by (rule conjunct1)
  then have 1: "then_do (buddy_free st a) (\<lambda>s. buddy_free s b) = Inr st'"
    by (simp only: pa qb fm)
  from local have "then_do (buddy_free st (PAGE_TO_ADDR q)) (\<lambda>s. buddy_free s (PAGE_TO_ADDR p)) =
      free_merge st (min p q) (Suc i)"
    by (rule conjunct1 [OF conjunct2])
  then have 2: "then_do (buddy_free st b) (\<lambda>s. buddy_free s a) = Inr st'"
    by (simp only: pa qb fm)
  from local have exact: "\<forall>ys. free_area st (Suc i) = Some ys \<and>
               (Suc i = MAX_ORDER \<or>
                ADDR_TO_PAGE (BUDDY_ADDR (PAGE_TO_ADDR (min p q)) (Suc i)) \<notin> set ys) \<longrightarrow>
               free_merge st (min p q) (Suc i) =
                 Inr ((set_blockOrder (min p q) (int (Suc i)) st)
                        \<lparr>free_area := (free_area st)(Suc i \<mapsto> min p q # ys)\<rparr>)"
    by (rule conjunct2 [OF conjunct2])
  have 3: "region_partitioned st' (live(a := None, b := None))"
    using inv'' by (rule inv_region_partitioned)
  from big obtain c k where ck: "Suc i \<le> k" "(c, k) \<in> free_blocks st'"
    "cover (min a b, Suc i) \<subseteq> cover (c, k)"
    "(k = Suc i) = (\<not> (Suc i < MAX_ORDER \<and> (BUDDY_ADDR (min a b) (Suc i), Suc i) \<in> free_blocks st))"
    by blast
  have "(Suc i < MAX_ORDER) = (Suc i \<noteq> MAX_ORDER)"
    using lt by auto
  with ck(4) have "(k = Suc i) =
      (Suc i = MAX_ORDER \<or> (BUDDY_ADDR (min a b) (Suc i), Suc i) \<notin> free_blocks st)"
    by simp
  with ck(1,2,3) cov have "i < k \<and> (c, k) \<in> free_blocks st' \<and>
      cover (a, i) \<union> cover (b, i) \<subseteq> cover (c, k) \<and>
      (k = Suc i) = (Suc i = MAX_ORDER \<or> (BUDDY_ADDR (min a b) (Suc i), Suc i) \<notin> free_blocks st)"
    by (simp add: Suc_le_eq)
  then have 4: "\<exists>c k. i < k \<and> (c, k) \<in> free_blocks st' \<and> cover (a, i) \<union> cover (b, i) \<subseteq> cover (c, k) \<and>
      (k = Suc i) = (Suc i = MAX_ORDER \<or> (BUDDY_ADDR (min a b) (Suc i), Suc i) \<notin> free_blocks st)"
    by blast
  have 5: "(min a b, Suc i) \<in> free_blocks st'"
    if h: "Suc i = MAX_ORDER \<or> (BUDDY_ADDR (min a b) (Suc i), Suc i) \<notin> free_blocks st"
  proof -
    obtain ys where ys: "free_area st (Suc i) = Some ys"
      using inv_list [OF inv(1), of "Suc i"] i lt by auto
    let ?bp = "ADDR_TO_PAGE (BUDDY_ADDR (PAGE_TO_ADDR (min p q)) (Suc i))"
    have "PAGE_SIZE dvd min a b"
      unfolding mpq [symmetric] by (simp add: PAGE_TO_ADDR_def)
    then have "PAGE_SIZE dvd BUDDY_ADDR (min a b) (Suc i)"
      unfolding BUDDY_ADDR_def using i by (intro xor_pow_page) simp_all
    then have bk: "PAGE_TO_ADDR ?bp = BUDDY_ADDR (min a b) (Suc i)"
      unfolding mpq by (rule PAGE_TO_ADDR_ADDR_TO_PAGE)
    have "Suc i = MAX_ORDER \<or> ?bp \<notin> set ys"
    proof (cases "Suc i = MAX_ORDER")
      case False
      with h have "(BUDDY_ADDR (min a b) (Suc i), Suc i) \<notin> free_blocks st"
        by simp
      with ys bk have "?bp \<notin> set ys"
        by (auto simp: free_blocks_iff)
      then show ?thesis ..
    qed simp
    with ys have "free_area st (Suc i) = Some ys \<and> (Suc i = MAX_ORDER \<or> ?bp \<notin> set ys)"
      by simp
    with exact have "free_merge st (min p q) (Suc i) =
        Inr ((set_blockOrder (min p q) (int (Suc i)) st)\<lparr>free_area := (free_area st)(Suc i \<mapsto> min p q # ys)\<rparr>)"
      by blast
    with fm have "st' = (set_blockOrder (min p q) (int (Suc i)) st)\<lparr>free_area := (free_area st)(Suc i \<mapsto> min p q # ys)\<rparr>"
      by simp
    then have "free_area st' (Suc i) = Some (min p q # ys)"
      by simp
    then show ?thesis
      unfolding free_blocks_iff mpq [symmetric] by (intro exI [of _ "min p q"] exI [of _ "min p q # ys"]) simp
  qed
  from 0 1 2 3 4 5 show ?thesis
    by blast
qed

lemma two_quarter_region_allocs:
  "run (post_init, Map.empty) [Alloc (2 ^ 18), Alloc (2 ^ 18)] =
     Some (state_after [Alloc (2 ^ 18), Alloc (2 ^ 18)], [0 \<mapsto> 18, 2 ^ 18 \<mapsto> 18])"
  by (simp add: state_after_def eval_ops ceillog2_values)

lemma two_quarter_region_allocs_buddy_free:
  "Suc 18 < MAX_ORDER \<and>
   (BUDDY_ADDR (min 0 (2 ^ 18)) (Suc 18), Suc 18) \<in>
     free_blocks (state_after [Alloc (2 ^ 18), Alloc (2 ^ 18)])"
proof
  show "Suc 18 < MAX_ORDER"
    by (simp add: MAX_ORDER_def)
  have fa: "free_area (state_after [Alloc (2 ^ 18), Alloc (2 ^ 18)]) (Suc 18) = Some [128]"
    by (simp add: state_after_def eval_ops ceillog2_values)
  have ba: "BUDDY_ADDR (min 0 (2 ^ 18)) (Suc 18) = PAGE_TO_ADDR 128"
    by (simp add: cdefs)
  show "(BUDDY_ADDR (min 0 (2 ^ 18)) (Suc 18), Suc 18) \<in>
      free_blocks (state_after [Alloc (2 ^ 18), Alloc (2 ^ 18)])"
    unfolding free_blocks_iff ba using fa by (intro exI [of _ 128] exI [of _ "[128]"]) simp
qed

text \<open>
  The theorem at the two quarter-region blocks of the counterexample: the merged block's
  buddy, the upper half of the region, is free and order 19 is below \<open>MAX_ORDER\<close>, so
  the free block that holds both siblings is not of order 19.
\<close>

theorem siblings_free_either_order_witness:
  "run (post_init, Map.empty) [Alloc (2 ^ 18), Alloc (2 ^ 18)] =
     Some (state_after [Alloc (2 ^ 18), Alloc (2 ^ 18)], [0 \<mapsto> 18, 2 ^ 18 \<mapsto> 18]) \<and>
   [0 \<mapsto> 18, 2 ^ 18 \<mapsto> 18] (0::nat) = Some (18::nat) \<and>
   [0 \<mapsto> 18, 2 ^ 18 \<mapsto> 18] (2 ^ 18 :: nat) = Some (18::nat) \<and>
   (2 ^ 18 :: nat) = BUDDY_ADDR 0 18 \<and>
   Suc 18 < MAX_ORDER \<and>
   (BUDDY_ADDR (min 0 (2 ^ 18)) (Suc 18), Suc 18) \<in>
     free_blocks (state_after [Alloc (2 ^ 18), Alloc (2 ^ 18)]) \<and>
   (\<exists>st'. then_do (buddy_free (state_after [Alloc (2 ^ 18), Alloc (2 ^ 18)]) 0)
             (\<lambda>s. buddy_free s (2 ^ 18)) = Inr st' \<and>
          then_do (buddy_free (state_after [Alloc (2 ^ 18), Alloc (2 ^ 18)]) (2 ^ 18))
             (\<lambda>s. buddy_free s 0) = Inr st' \<and>
          free_merge (state_after [Alloc (2 ^ 18), Alloc (2 ^ 18)])
             (ADDR_TO_PAGE (min 0 (2 ^ 18))) (Suc 18) = Inr st' \<and>
          region_partitioned st' ([0 \<mapsto> 18, 2 ^ 18 \<mapsto> 18](0 := None, 2 ^ 18 := None)) \<and>
          (\<exists>c k. 18 < k \<and> (c, k) \<in> free_blocks st' \<and>
                 cover (0, 18) \<union> cover (2 ^ 18, 18) \<subseteq> cover (c, k) \<and>
                 (k = Suc 18) =
                   (Suc 18 = MAX_ORDER \<or>
                    (BUDDY_ADDR (min 0 (2 ^ 18)) (Suc 18), Suc 18) \<notin>
                      free_blocks (state_after [Alloc (2 ^ 18), Alloc (2 ^ 18)]))))"
proof -
  have h2: "[0 \<mapsto> 18, 2 ^ 18 \<mapsto> 18] (0::nat) = Some (18::nat)"
    and h3: "[0 \<mapsto> 18, 2 ^ 18 \<mapsto> 18] (2 ^ 18 :: nat) = Some (18::nat)"
    by simp_all
  have h4: "(2 ^ 18 :: nat) = BUDDY_ADDR 0 18"
    by (simp add: BUDDY_ADDR_def)
  from siblings_free_either_order [OF two_quarter_region_allocs h2 h3 h4]
    two_quarter_region_allocs h2 h3 h4 two_quarter_region_allocs_buddy_free
  show ?thesis
    by blast
qed

section \<open>buddy_free against the spec's algorithm\<close>

lemma find_the_one:
  "(\<And>d. d \<in> set xs \<Longrightarrow> P d = (d = x)) \<Longrightarrow> find P xs = (if x \<in> set xs then Some x else None)"
  by (induction xs) auto

lemma tables_ok_list:
  "tables_ok st \<Longrightarrow> MIN_ORDER \<le> k \<Longrightarrow> k \<le> MAX_ORDER \<Longrightarrow>
     \<exists>xs. free_area st k = Some xs \<and> (\<forall>d\<in>set xs. d < N_PAGES)"
  by (simp add: tables_ok_def)

lemma tables_ok_remove1:
  assumes "tables_ok st" "free_area st i = Some xs"
  shows "tables_ok (st\<lparr>free_area := (free_area st)(i \<mapsto> remove1 p xs)\<rparr>)"
proof -
  have "\<exists>ys. ((free_area st)(i \<mapsto> remove1 p xs)) k = Some ys \<and> (\<forall>d\<in>set ys. d < N_PAGES)"
    if "MIN_ORDER \<le> k" "k \<le> MAX_ORDER" for k
  proof (cases "k = i")
    case True
    from tables_ok_list [OF assms(1) that] True assms(2) have "\<forall>d\<in>set xs. d < N_PAGES"
      by simp
    then have "\<forall>d\<in>set (remove1 p xs). d < N_PAGES"
      by (meson notin_set_remove1)
    with True show ?thesis
      by simp
  next
    case False
    with tables_ok_list [OF assms(1) that] show ?thesis
      by simp
  qed
  with assms(1) show ?thesis
    by (simp add: tables_ok_def)
qed

lemma free_insert_spec:
  assumes "tables_ok st" "MIN_ORDER \<le> i" "i \<le> MAX_ORDER"
    and "spec_merge st (PAGE_TO_ADDR fp) i = (st, PAGE_TO_ADDR fp, i)"
  shows "free_insert st fp i = Inr (spec_free st (PAGE_TO_ADDR fp) i)"
proof -
  from tables_ok_list [OF assms(1,2,3)] obtain xs where xs: "free_area st i = Some xs"
    by blast
  with assms(3,4) show ?thesis
    by (simp add: free_insert_def free_area_add_def spec_free_def Let_def list_add_def
        set_blockOrder_def ADDR_TO_PAGE_PAGE_TO_ADDR)
qed

lemma free_merge_spec:
  assumes "tables_ok st" "fp < N_PAGES" "MIN_ORDER \<le> i" "i \<le> MAX_ORDER"
  shows "free_merge st fp i = Inr (spec_free st (PAGE_TO_ADDR fp) i)"
  using assms
proof (induction st fp i rule: free_merge.induct)
  case (1 st fp i)
  note ok = "1.prems"(1) and fp = "1.prems"(2) and i = "1.prems"(3,4)
  from tables_ok_list [OF ok i] obtain xs where xs: "free_area st i = Some xs"
    and lt: "\<forall>d\<in>set xs. d < N_PAGES"
    by blast
  have pages: "blockAddress (g_pages st d) = PAGE_TO_ADDR d" if "d < N_PAGES" for d
    using ok that by (simp add: tables_ok_def pages_ok_def)
  define b where "b = PAGE_TO_ADDR fp XOR 2 ^ i"
  define bp where "bp = ADDR_TO_PAGE b"
  have "PAGE_SIZE dvd PAGE_TO_ADDR fp"
    by (simp add: PAGE_TO_ADDR_def)
  then have "PAGE_SIZE dvd b"
    unfolding b_def using i(1) by (rule xor_pow_page)
  then have bad: "PAGE_TO_ADDR bp = b"
    unfolding bp_def by (rule PAGE_TO_ADDR_ADDR_TO_PAGE)
  have buddy: "ADDR_TO_PAGE (BUDDY_ADDR (blockAddress (g_pages st fp)) i) = bp"
    by (simp add: pages [OF fp] BUDDY_ADDR_def b_def bp_def)
  have "(blockAddress (g_pages st d) = b) = (d = bp)" if "d \<in> set xs" for d
    using pages [of d] lt that bad by (auto simp: PAGE_TO_ADDR_inj)
  then have fnd: "find (\<lambda>d. blockAddress (g_pages st d) = b) xs = (if bp \<in> set xs then Some bp else None)"
    by (rule find_the_one)
  show ?case
  proof (cases "i < MAX_ORDER \<and> bp \<in> set xs")
    case False
    then have "spec_merge st (PAGE_TO_ADDR fp) i = (st, PAGE_TO_ADDR fp, i)"
      using xs fnd by (subst spec_merge.simps) (auto simp: Let_def b_def)
    from free_insert_spec [OF ok i this]
    have "free_insert st fp i = Inr (spec_free st (PAGE_TO_ADDR fp) i)" .
    moreover have "free_merge st fp i = free_insert st fp i"
      using False xs buddy by (subst free_merge.simps) (auto simp: Let_def)
    ultimately show ?thesis
      by simp
  next
    case True
    then have lt': "i < MAX_ORDER" and mem: "bp \<in> set xs"
      by simp_all
    define st2 where "st2 = st\<lparr>free_area := (free_area st)(i \<mapsto> remove1 bp xs)\<rparr>"
    define fp' where "fp' = (if fp > bp then bp else fp)"
    have addr': "min (PAGE_TO_ADDR fp) b = PAGE_TO_ADDR fp'"
      unfolding fp'_def bad [symmetric] by (simp add: PAGE_TO_ADDR_def PAGE_SIZE_def min_def)
    have ok2: "tables_ok st2"
      unfolding st2_def using ok xs by (rule tables_ok_remove1)
    have fp'lt: "fp' < N_PAGES"
      using fp lt mem by (simp add: fp'_def)
    have "free_merge st2 fp' (Suc i) = Inr (spec_free st2 (PAGE_TO_ADDR fp') (Suc i))"
      unfolding st2_def fp'_def list_del_def [symmetric]
      by (rule "1.IH" [OF lt' buddy [symmetric] xs])
        (use mem ok2 fp'lt i lt' in \<open>simp_all add: st2_def fp'_def list_del_def\<close>)
    moreover have "free_merge st fp i = free_merge st2 fp' (Suc i)"
      using lt' xs mem buddy
      by (subst free_merge.simps) (simp add: Let_def st2_def fp'_def list_del_def)
    moreover have "spec_merge st (PAGE_TO_ADDR fp) i = spec_merge st2 (PAGE_TO_ADDR fp') (Suc i)"
      using lt' xs mem fnd addr'
      by (subst spec_merge.simps) (simp add: Let_def b_def [symmetric] st2_def)
    then have "spec_free st (PAGE_TO_ADDR fp) i = spec_free st2 (PAGE_TO_ADDR fp') (Suc i)"
      by (simp add: spec_free_def)
    ultimately show ?thesis
      by simp
  qed
qed

lemma inv_tables_ok: "buddy_inv st L \<Longrightarrow> tables_ok st"
  unfolding tables_ok_def
proof (intro conjI allI impI)
  assume inv: "buddy_inv st L"
  then show "pages_ok st"
    by (simp add: buddy_inv_def)
  fix k
  assume k: "MIN_ORDER \<le> k \<and> k \<le> MAX_ORDER"
  with inv_list [OF inv] obtain xs where xs: "free_area st k = Some xs"
    by blast
  with inv_free_page [OF inv xs] show "\<exists>xs. free_area st k = Some xs \<and> (\<forall>d\<in>set xs. d < N_PAGES)"
    by blast
qed

text \<open>
  C7. On a state whose page table and free lists are initialised, and for the address of a
  page whose \<^verbatim>\<open>blockOrder\<close> is \<open>i0\<close>, an order of the allocator, \<^verbatim>\<open>buddy_free\<close>
  does not fault and produces the state of the spec's algorithm: buddy address by XOR
  with \<open>2 ^ i\<close>, a scan of the free list at order \<open>i\<close> only, removal of a found buddy,
  the lower address as the merged base, the next order; at the end the block's order is
  set and the block is inserted once, into the list of the final order.
\<close>

theorem buddy_free_refines_spec:
  assumes "tables_ok st" and "PAGE_SIZE dvd addr" and "addr < 2 ^ MAX_ORDER"
    and "blockOrder (g_pages st (ADDR_TO_PAGE addr)) = int i0"
    and "MIN_ORDER \<le> i0" and "i0 \<le> MAX_ORDER"
  shows "buddy_free st addr = Inr (spec_free st addr i0)"
proof -
  have fp: "ADDR_TO_PAGE addr < N_PAGES"
    using assms(3) by (rule ADDR_TO_PAGE_less)
  from free_merge_spec [OF assms(1) fp assms(5,6)] PAGE_TO_ADDR_ADDR_TO_PAGE [OF assms(2)]
  have "free_merge st (ADDR_TO_PAGE addr) i0 = Inr (spec_free st addr i0)"
    by simp
  with fp assms(4) show ?thesis
    by (simp add: buddy_free_def)
qed

theorem buddy_free_refines_spec_witness:
  "run (post_init, Map.empty) [Alloc (int PAGE_SIZE)] =
     Some (state_after [Alloc (int PAGE_SIZE)], [0 \<mapsto> MIN_ORDER]) \<and>
   tables_ok (state_after [Alloc (int PAGE_SIZE)]) \<and> PAGE_SIZE dvd 0 \<and> (0::nat) < 2 ^ MAX_ORDER \<and>
   blockOrder (g_pages (state_after [Alloc (int PAGE_SIZE)]) (ADDR_TO_PAGE 0)) = int MIN_ORDER \<and>
   MIN_ORDER \<le> MIN_ORDER \<and> MIN_ORDER \<le> MAX_ORDER \<and>
   buddy_free (state_after [Alloc (int PAGE_SIZE)]) 0 =
     Inr (spec_free (state_after [Alloc (int PAGE_SIZE)]) 0 MIN_ORDER)"
proof -
  let ?st = "state_after [Alloc (int PAGE_SIZE)]"
  note inv = reachable_inv [OF run_one_alloc]
  have h1: "tables_ok ?st"
    using inv(1) by (rule inv_tables_ok)
  have h2: "PAGE_SIZE dvd 0" and h3: "(0::nat) < 2 ^ MAX_ORDER"
    by simp_all
  have h4: "blockOrder (g_pages ?st (ADDR_TO_PAGE 0)) = int MIN_ORDER"
    using inv(2) by (simp add: orders_ok_def)
  have h5: "MIN_ORDER \<le> MIN_ORDER" and h6: "MIN_ORDER \<le> MAX_ORDER"
    by (simp_all add: cdefs)
  from buddy_free_refines_spec [OF h1 h2 h3 h4 h5 h6] run_one_alloc h1 h2 h3 h4 h5 h6 show ?thesis
    by blast
qed

end
